theory Spec2Isabelle
  imports Complex_Main "HOL-Library.Multiset"
begin

section \<open>Strings\<close>

text \<open>
  A JavaScript string is a sequence of UTF-16 code units. The regular expressions of
  \<^verbatim>\<open>App.tsx\<close> carry no \<^verbatim>\<open>u\<close> flag, so they too work on code units. A string is
  modelled as the list of its code units (numbers below 65536; no function here does
  arithmetic on them).
\<close>

type_synonym jsstring = "nat list"

abbreviation squote :: nat where "squote \<equiv> 39"
abbreviation dquote :: nat where "dquote \<equiv> 34"
abbreviation comma :: nat where "comma \<equiv> 44"
abbreviation slash :: nat where "slash \<equiv> 47"
abbreviation touten :: nat where "touten \<equiv> 12289"

text \<open>
  \<^verbatim>\<open>String.prototype.trim\<close> removes WhiteSpace and LineTerminator code points from both
  ends; the class \<^verbatim>\<open>\s\<close> of a regular expression is the same set.
\<close>

definition is_ws :: "nat \<Rightarrow> bool" where
  "is_ws c \<longleftrightarrow>
     c = 9 \<or> c = 10 \<or> c = 11 \<or> c = 12 \<or> c = 13 \<or> c = 32 \<or> c = 160 \<or> c = 5760 \<or>
     (8192 \<le> c \<and> c \<le> 8202) \<or> c = 8232 \<or> c = 8233 \<or> c = 8239 \<or> c = 8287 \<or>
     c = 12288 \<or> c = 65279"

definition trim :: "jsstring \<Rightarrow> jsstring" where
  "trim s = rev (dropWhile is_ws (rev (dropWhile is_ws s)))"

text \<open>
  \<^verbatim>\<open>s.split(sep)\<close> for a separator of one code unit: the pieces between the
  occurrences of \<open>sep\<close>; the empty string splits into one empty piece.
\<close>

fun split_on :: "nat \<Rightarrow> jsstring \<Rightarrow> jsstring list" where
  "split_on sep [] = [[]]"
| "split_on sep (c # r) =
     (if c = sep then [] # split_on sep r
      else (case split_on sep r of
              [] \<Rightarrow> [[c]]
            | h # t \<Rightarrow> (c # h) # t))"

text \<open>
  \<^verbatim>\<open>s.includes(t)\<close>: \<open>t\<close> occurs in \<open>s\<close> at some position.
\<close>

fun starts_with :: "jsstring \<Rightarrow> jsstring \<Rightarrow> bool" where
  "starts_with s [] = True"
| "starts_with [] (y # ys) = False"
| "starts_with (x # xs) (y # ys) = (x = y \<and> starts_with xs ys)"

fun js_includes :: "jsstring \<Rightarrow> jsstring \<Rightarrow> bool" where
  "js_includes [] t = (t = [])"
| "js_includes (x # xs) t = (starts_with (x # xs) t \<or> js_includes xs t)"

section \<open>Reading annotation\<close>

text \<open>
  \<^verbatim>\<open>extractReadingCore\<close> is \<^verbatim>\<open>reading.replace(/'[^']*'/g, '')\<close>. The global replace
  scans from the left: at a quote that has a later quote, the match runs to the nearest
  later quote and is deleted, and the scan goes on behind it; anywhere else the code unit
  is kept and the scan moves one position on.
\<close>

function extractReadingCore :: "jsstring \<Rightarrow> jsstring" where
  "extractReadingCore [] = []"
| "extractReadingCore (c # r) =
     (if c = squote then
        (case dropWhile (\<lambda>x. x \<noteq> squote) r of
           [] \<Rightarrow> c # extractReadingCore r
         | q # rest \<Rightarrow> extractReadingCore rest)
      else c # extractReadingCore r)"
  by pat_completeness auto
termination
proof (relation "measure length")
  show "wf (measure length)" by simp
next
  fix c :: nat and r :: jsstring
  show "(r, c # r) \<in> measure length" by simp
next
  fix c :: nat and r :: jsstring and q rest
  assume "dropWhile (\<lambda>x. x \<noteq> squote) r = q # rest"
  then have "length (q # rest) \<le> length r"
    by (metis length_dropWhile_le)
  then show "(rest, c # r) \<in> measure length" by simp
next
  fix c :: nat and r :: jsstring
  show "(r, c # r) \<in> measure length" by simp
qed

text \<open>
  One display segment of \<^verbatim>\<open>formatReadingWithOkurigana\<close>: a \<^verbatim>\<open>span\<close> with its text,
  coloured when it is an emphasised (okurigana) part.
\<close>

record segment =
  stext :: jsstring
  emphasized :: bool

text \<open>
  The pattern \<^verbatim>\<open>/'([^']+)'/\<close> tried at the head of a string: a quote, the longest run
  of non-quotes (at least one), a quote. Backtracking to a shorter run cannot help, since
  the unit after a shorter run is no quote. The result is the captured group and the
  text behind the match.
\<close>

definition match_here :: "jsstring \<Rightarrow> (jsstring \<times> jsstring) option" where
  "match_here s =
     (case s of
        [] \<Rightarrow> None
      | c # r \<Rightarrow>
          if c \<noteq> squote then None
          else if takeWhile (\<lambda>x. x \<noteq> squote) r = [] then None
          else (case dropWhile (\<lambda>x. x \<noteq> squote) r of
                  [] \<Rightarrow> None
                | q # rest \<Rightarrow> Some (takeWhile (\<lambda>x. x \<noteq> squote) r, rest)))"

text \<open>
  \<^verbatim>\<open>regex.exec(reading)\<close> from \<^verbatim>\<open>lastIndex\<close>: the argument is
  \<^verbatim>\<open>reading.substring(lastIndex)\<close>, the result is the text from \<^verbatim>\<open>lastIndex\<close> to
  \<^verbatim>\<open>match.index\<close>, the group \<^verbatim>\<open>match[1]\<close>, and the text from the new
  \<^verbatim>\<open>lastIndex\<close> on; \<open>None\<close> is \<^verbatim>\<open>null\<close>.
\<close>

fun regex_exec :: "jsstring \<Rightarrow> (jsstring \<times> jsstring \<times> jsstring) option" where
  "regex_exec [] = None"
| "regex_exec (c # r) =
     (case match_here (c # r) of
        Some (b, rest) \<Rightarrow> Some ([], b, rest)
      | None \<Rightarrow>
          (case regex_exec r of
             None \<Rightarrow> None
           | Some (p, b, rest) \<Rightarrow> Some (c # p, b, rest)))"

lemma match_here_shorter:
  "match_here s = Some (b, rest) \<Longrightarrow> length rest < length s"
proof -
  assume m: "match_here s = Some (b, rest)"
  then obtain c r q where s: "s = c # r" and d: "dropWhile (\<lambda>x. x \<noteq> squote) r = q # rest"
    by (auto simp: match_here_def split: list.splits if_splits)
  have "length (q # rest) \<le> length r"
    using d by (metis length_dropWhile_le)
  with s show ?thesis by simp
qed

lemma regex_exec_shorter:
  "regex_exec s = Some (p, b, rest) \<Longrightarrow> length rest < length s"
proof (induction s arbitrary: p)
  case Nil
  then show ?case by simp
next
  case (Cons c r)
  show ?case
  proof (cases "match_here (c # r)")
    case None
    with Cons.prems obtain p' where "regex_exec r = Some (p', b, rest)"
      by (auto split: option.splits)
    then have "length rest < length r" by (rule Cons.IH)
    then show ?thesis by simp
  next
    case (Some m)
    with Cons.prems have "match_here (c # r) = Some (b, rest)"
      by (auto split: prod.splits)
    then show ?thesis by (rule match_here_shorter)
  qed
qed

text \<open>
  The loop of \<^verbatim>\<open>formatReadingWithOkurigana\<close>, on \<^verbatim>\<open>reading.substring(lastIndex)\<close>:
  the text before a match becomes a plain segment when \<^verbatim>\<open>match.index > lastIndex\<close>,
  the group an emphasised one; after the last match the rest becomes a plain segment
  when \<^verbatim>\<open>lastIndex < reading.length\<close>.
\<close>

function formatReadingWithOkurigana :: "jsstring \<Rightarrow> segment list" where
  "formatReadingWithOkurigana s =
     (case regex_exec s of
        None \<Rightarrow> (if s \<noteq> [] then [\<lparr>stext = s, emphasized = False\<rparr>] else [])
      | Some (p, b, rest) \<Rightarrow>
          (if p \<noteq> [] then [\<lparr>stext = p, emphasized = False\<rparr>] else [])
          @ [\<lparr>stext = b, emphasized = True\<rparr>]
          @ formatReadingWithOkurigana rest)"
  by pat_completeness auto
termination
  by (relation "measure length") (auto dest: regex_exec_shorter)

declare formatReadingWithOkurigana.simps [simp del]


text \<open>
  The reading of the claim's "balanced" delimiters: an even number of quotes.
\<close>

definition balanced_quotes :: "jsstring \<Rightarrow> bool" where
  "balanced_quotes s \<longleftrightarrow> even (length (filter (\<lambda>x. x = squote) s))"

text \<open>
  The quotes of a string pair up from the left, and every pair encloses at least one
  code unit: plain text, then a quote, a non-empty run without quotes, a quote, and so
  on to the end.
\<close>

function quotes_paired :: "jsstring \<Rightarrow> bool" where
  "quotes_paired s =
     (case dropWhile (\<lambda>x. x \<noteq> squote) s of
        [] \<Rightarrow> True
      | q # r \<Rightarrow>
          takeWhile (\<lambda>x. x \<noteq> squote) r \<noteq> [] \<and>
          (case dropWhile (\<lambda>x. x \<noteq> squote) r of
             [] \<Rightarrow> False
           | q' # r' \<Rightarrow> quotes_paired r'))"
  by pat_completeness auto
termination
proof (relation "measure length")
  show "wf (measure length)" by simp
next
  fix s :: jsstring and q r q' r'
  assume a: "dropWhile (\<lambda>x. x \<noteq> squote) s = q # r"
    and b: "dropWhile (\<lambda>x. x \<noteq> squote) r = q' # r'"
  have "length (q # r) \<le> length s" using a by (metis length_dropWhile_le)
  moreover have "length (q' # r') \<le> length r" using b by (metis length_dropWhile_le)
  ultimately show "(r', s) \<in> measure length" by simp
qed

declare quotes_paired.simps [simp del]

section \<open>Answer validation\<close>

text \<open>
  The value \<^verbatim>\<open>correct\<close> of \<^verbatim>\<open>checkAnswer\<close>: the reading is split on the full-width
  comma, every option trimmed, and the trimmed input compared with the core of each
  option (\<^verbatim>\<open>Array.prototype.some\<close>).
\<close>

definition answer_matches :: "jsstring \<Rightarrow> jsstring \<Rightarrow> bool" where
  "answer_matches userAnswer correctReading =
     (let correctOptions = map trim (split_on touten correctReading);
          userInput = trim userAnswer
      in list_ex (\<lambda>option. userInput = extractReadingCore option) correctOptions)"

section \<open>Catalog entries\<close>

text \<open>
  The type \<^verbatim>\<open>Item\<close>. The fields marked \<^verbatim>\<open>?\<close> in the source may be
  \<^verbatim>\<open>undefined\<close> (\<open>None\<close>); so may \<^verbatim>\<open>filename\<close>, which \<^verbatim>\<open>load\<close> fills from a
  dynamic property read and casts with \<^verbatim>\<open>as Item\<close>.
\<close>

record item =
  filename :: "jsstring option"
  reading :: jsstring
  meaning :: "jsstring option"
  imageUrl :: jsstring
  additionalInfo :: "jsstring option"
  components :: "jsstring option"

text \<open>\<^verbatim>\<open>x || ''\<close> for an optional string: undefined and the empty string give the empty string.\<close>

definition or_empty :: "jsstring option \<Rightarrow> jsstring" where
  "or_empty v = (case v of None \<Rightarrow> [] | Some s \<Rightarrow> if s = [] then [] else s)"

text \<open>An entry as \<^verbatim>\<open>load\<close> builds it from a row that has nothing but a reading.\<close>

abbreviation entry_reading :: "jsstring \<Rightarrow> item" where
  "entry_reading r \<equiv>
     \<lparr>filename = None, reading = r, meaning = None,
      imageUrl = [47, 107, 97, 110, 106, 105, 47, 108, 101, 118, 101, 108, 45, 55, 47,
                  117, 110, 100, 101, 102, 105, 110, 101, 100],
      additionalInfo = Some [], components = Some []\<rparr>"

section \<open>Record parsing\<close>

text \<open>The loop of \<^verbatim>\<open>parseCSVLine\<close> over the rest of the line, with its three variables.\<close>

fun parse_loop :: "jsstring \<Rightarrow> jsstring list \<Rightarrow> jsstring \<Rightarrow> bool \<Rightarrow> jsstring list" where
  "parse_loop [] result current inQuotes = result @ [current]"
| "parse_loop (char # rest) result current inQuotes =
     (if char = dquote then parse_loop rest result current (\<not> inQuotes)
      else if char = comma \<and> \<not> inQuotes then parse_loop rest (result @ [current]) [] inQuotes
      else parse_loop rest result (current @ [char]) inQuotes)"

definition parseCSVLine :: "jsstring \<Rightarrow> jsstring list" where
  "parseCSVLine line = parse_loop line [] [] False"

text \<open>Decimal digits of a number, as a template literal prints it.\<close>

function show_nat :: "nat \<Rightarrow> jsstring" where
  "show_nat n = (if n < 10 then [48 + n] else show_nat (n div 10) @ [48 + n mod 10])"
  by pat_completeness auto
termination
  by (relation "measure id") auto

declare show_nat.simps [simp del]

abbreviation str_path :: jsstring where
  "str_path \<equiv> [112, 97, 116, 104]"
abbreviation str_filename :: jsstring where
  "str_filename \<equiv> [102, 105, 108, 101, 110, 97, 109, 101]"
abbreviation str_reading :: jsstring where
  "str_reading \<equiv> [114, 101, 97, 100, 105, 110, 103]"
abbreviation str_meaning :: jsstring where
  "str_meaning \<equiv> [109, 101, 97, 110, 105, 110, 103]"
abbreviation str_additional_info :: jsstring where
  "str_additional_info \<equiv> [97, 100, 100, 105, 116, 105, 111, 110, 97, 108, 95, 105, 110, 102, 111]"
abbreviation str_components :: jsstring where
  "str_components \<equiv> [99, 111, 109, 112, 111, 110, 101, 110, 116, 115]"
abbreviation str_col :: jsstring where
  "str_col \<equiv> [99, 111, 108]"
abbreviation str_undefined :: jsstring where
  "str_undefined \<equiv> [117, 110, 100, 101, 102, 105, 110, 101, 100]"
abbreviation str_proto :: jsstring where
  "str_proto \<equiv> [95, 95, 112, 114, 111, 116, 111, 95, 95]"
abbreviation str_kanji_level :: jsstring where
  "str_kanji_level \<equiv> [47, 107, 97, 110, 106, 105, 47, 108, 101, 118, 101, 108, 45]"

text \<open>
  The row object \<^verbatim>\<open>obj\<close> is a plain object literal: its own properties are a map from
  names to strings, and a read of a name it does not own falls through to
  \<^verbatim>\<open>Object.prototype\<close>. The names found there are \<^verbatim>\<open>constructor\<close>,
  \<^verbatim>\<open>__defineGetter__\<close>, \<^verbatim>\<open>__defineSetter__\<close>, \<^verbatim>\<open>hasOwnProperty\<close>,
  \<^verbatim>\<open>__lookupGetter__\<close>, \<^verbatim>\<open>__lookupSetter__\<close>, \<^verbatim>\<open>isPrototypeOf\<close>,
  \<^verbatim>\<open>propertyIsEnumerable\<close>, \<^verbatim>\<open>toString\<close>, \<^verbatim>\<open>valueOf\<close>, \<^verbatim>\<open>__proto__\<close> and
  \<^verbatim>\<open>toLocaleString\<close>; each holds a function or an object, never a string. An
  assignment to \<^verbatim>\<open>__proto__\<close> runs the inherited setter, which ignores a string and
  creates no own property; an assignment to any other name creates or overwrites an own
  property.
\<close>

definition object_prototype_names :: "jsstring list" where
  "object_prototype_names =
     [[99, 111, 110, 115, 116, 114, 117, 99, 116, 111, 114],
      [95, 95, 100, 101, 102, 105, 110, 101, 71, 101, 116, 116, 101, 114, 95, 95],
      [95, 95, 100, 101, 102, 105, 110, 101, 83, 101, 116, 116, 101, 114, 95, 95],
      [104, 97, 115, 79, 119, 110, 80, 114, 111, 112, 101, 114, 116, 121],
      [95, 95, 108, 111, 111, 107, 117, 112, 71, 101, 116, 116, 101, 114, 95, 95],
      [95, 95, 108, 111, 111, 107, 117, 112, 83, 101, 116, 116, 101, 114, 95, 95],
      [105, 115, 80, 114, 111, 116, 111, 116, 121, 112, 101, 79, 102],
      [112, 114, 111, 112, 101, 114, 116, 121, 73, 115, 69, 110, 117, 109, 101, 114, 97, 98, 108, 101],
      [116, 111, 83, 116, 114, 105, 110, 103],
      [118, 97, 108, 117, 101, 79, 102],
      str_proto,
      [116, 111, 76, 111, 99, 97, 108, 101, 83, 116, 114, 105, 110, 103]]"

datatype jsval = Undefined | Str jsstring | ObjectValue

type_synonym row_object = "jsstring \<rightharpoonup> jsstring"

definition set_prop :: "row_object \<Rightarrow> jsstring \<Rightarrow> jsstring \<Rightarrow> row_object" where
  "set_prop obj k v = (if k = str_proto then obj else obj(k \<mapsto> v))"

definition get_prop :: "row_object \<Rightarrow> jsstring \<Rightarrow> jsval" where
  "get_prop obj k =
     (case obj k of
        Some v \<Rightarrow> Str v
      | None \<Rightarrow> if k \<in> set object_prototype_names then ObjectValue else Undefined)"

text \<open>
  The property name of column \<open>i\<close>: \<^verbatim>\<open>header[i] || `col${i}`\<close>, where
  \<^verbatim>\<open>header[i]\<close> is undefined beyond the header and falsy when empty.
\<close>

definition key_of :: "jsstring list \<Rightarrow> nat \<Rightarrow> jsstring" where
  "key_of header i =
     (if i < length header \<and> header ! i \<noteq> [] then header ! i else str_col @ show_nat i)"

text \<open>The body of \<^verbatim>\<open>lines.map(line => ...)\<close>: one assignment per column of the row.\<close>

definition row_obj :: "jsstring list \<Rightarrow> jsstring list \<Rightarrow> row_object" where
  "row_obj header cols =
     fold (\<lambda>i obj. set_prop obj (key_of header i) (trim (cols ! i))) [0..<length cols] Map.empty"

text \<open>
  \<^verbatim>\<open>filenameField\<close>; \<^verbatim>\<open>header[0]\<close> of an empty header is undefined, which as a
  property name reads \<^verbatim>\<open>"undefined"\<close>.
\<close>

definition filenameField :: "jsstring list \<Rightarrow> jsstring" where
  "filenameField header =
     (if str_path \<in> set header then str_path
      else if str_filename \<in> set header then str_filename
      else (case header of [] \<Rightarrow> str_undefined | h # _ \<Rightarrow> h))"

datatype error = TypeError

text \<open>
  The body of \<^verbatim>\<open>data.map(d => ...)\<close>. \<^verbatim>\<open>fname?.startsWith('/')\<close> is undefined for an
  undefined \<^verbatim>\<open>fname\<close> and throws a TypeError for a value that has no method
  \<^verbatim>\<open>startsWith\<close>. The names \<^verbatim>\<open>reading\<close>, \<^verbatim>\<open>meaning\<close>, \<^verbatim>\<open>additional_info\<close>
  and \<^verbatim>\<open>components\<close> are not names of \<^verbatim>\<open>Object.prototype\<close>, so these reads see own
  properties only.
\<close>

definition mapItem :: "nat \<Rightarrow> jsstring list \<Rightarrow> row_object \<Rightarrow> error + item" where
  "mapItem selectedLevel header d =
     (case get_prop d (filenameField header) of
        ObjectValue \<Rightarrow> Inl TypeError
      | Undefined \<Rightarrow>
          Inr \<lparr>filename = None,
               reading = or_empty (d str_reading),
               meaning = d str_meaning,
               imageUrl = str_kanji_level @ show_nat selectedLevel @ [slash] @ str_undefined,
               additionalInfo = Some (or_empty (d str_additional_info)),
               components = Some (or_empty (d str_components))\<rparr>
      | Str fname \<Rightarrow>
          Inr \<lparr>filename = Some fname,
               reading = or_empty (d str_reading),
               meaning = d str_meaning,
               imageUrl = (if starts_with fname [slash] then fname
                           else str_kanji_level @ show_nat selectedLevel @ [slash] @ fname),
               additionalInfo = Some (or_empty (d str_additional_info)),
               components = Some (or_empty (d str_components))\<rparr>)"

text \<open>
  \<^verbatim>\<open>text.split(/\r?\n/)\<close>: the text is cut at every line feed, and a carriage return
  right before a line feed belongs to the separator.
\<close>

definition strip_cr :: "jsstring \<Rightarrow> jsstring" where
  "strip_cr s = (if s \<noteq> [] \<and> last s = 13 then butlast s else s)"

definition split_lines :: "jsstring \<Rightarrow> jsstring list" where
  "split_lines t = (let ps = split_on 10 t in map strip_cr (butlast ps) @ [last ps])"

text \<open>
  The part of \<^verbatim>\<open>load\<close> behind the fetch, from the text of the CSV file to the items;
  an exception thrown by a row ends in the \<^verbatim>\<open>catch\<close> block, and no catalog is set.
  \<^verbatim>\<open>String.prototype.toLowerCase\<close> is a parameter.
\<close>

fun collect :: "(error + 'a) list \<Rightarrow> error + 'a list" where
  "collect [] = Inr []"
| "collect (Inl e # _) = Inl e"
| "collect (Inr x # xs) = (case collect xs of Inl e \<Rightarrow> Inl e | Inr ys \<Rightarrow> Inr (x # ys))"

definition load_text :: "(jsstring \<Rightarrow> jsstring) \<Rightarrow> nat \<Rightarrow> jsstring \<Rightarrow> error + item list" where
  "load_text toLowerCase selectedLevel t =
     (let lines = filter (\<lambda>l. l \<noteq> []) (split_lines t);
          headerLine = (case lines of [] \<Rightarrow> [] | l # _ \<Rightarrow> l);
          header = map (\<lambda>h. toLowerCase (trim h)) (parseCSVLine headerLine);
          data = map (\<lambda>line. row_obj header (parseCSVLine line)) (tl lines)
      in collect (map (mapItem selectedLevel header) data))"


section \<open>Browsing: genre filter and search\<close>

abbreviation genre_all :: jsstring where
  "genre_all \<equiv> [97, 108, 108]"
abbreviation genre_none :: jsstring where
  "genre_none \<equiv> [12472, 12515, 12531, 12523, 12394, 12375]"

text \<open>The sixteen labels of \<^verbatim>\<open>definedGenres\<close>, in the order of the source.\<close>

definition definedGenres :: "jsstring list" where
  "definedGenres =
     [[21205, 29289],
      [26893, 29289, 12539, 34299, 39006],
      [22320, 21517, 12539, 24314, 36896, 29289],
      [20154, 21517],
      [12473, 12521, 12531, 12464],
      [39154, 39135],
      [21336, 20301],
      [28436, 30446, 12539, 22806, 38988],
      [21063, 22825, 25991, 23383],
      [12481, 12517, 12494, 12512],
      [20803, 32032],
      [22040, 23383],
      [31777, 20307, 23383],
      [25991, 23398, 12398, 28450, 23383],
      [23383, 32681, 26410, 35443],
      [35199, 22799, 25991, 23383]]"

definition filterByGenre :: "jsstring \<Rightarrow> item list \<Rightarrow> item list" where
  "filterByGenre selectedGenre xs =
     (if selectedGenre = genre_all then xs
      else if selectedGenre = genre_none then
        filter (\<lambda>it. let info = or_empty (additionalInfo it)
                     in \<not> list_ex (\<lambda>genre. js_includes info genre) definedGenres) xs
      else
        filter (\<lambda>it. let info = or_empty (additionalInfo it)
                     in js_includes info selectedGenre) xs)"

datatype SearchMode = ReadingSearch | ComponentSearch

text \<open>
  \<^verbatim>\<open>reading.match(/'([^']+)'/g)\<close>: all matches, each with its two quotes; the empty
  list stands for \<^verbatim>\<open>null\<close>.
\<close>

function match_all :: "jsstring \<Rightarrow> jsstring list" where
  "match_all s =
     (case regex_exec s of
        None \<Rightarrow> []
      | Some (p, b, rest) \<Rightarrow> (squote # b @ [squote]) # match_all rest)"
  by pat_completeness auto
termination
  by (relation "measure length") (auto dest: regex_exec_shorter)

declare match_all.simps [simp del]

text \<open>\<^verbatim>\<open>components.split(/\s+/)\<close>: the pieces between the runs of whitespace.\<close>

function split_ws :: "jsstring \<Rightarrow> jsstring list" where
  "split_ws [] = [[]]"
| "split_ws (c # r) =
     (if is_ws c then [] # split_ws (dropWhile is_ws r)
      else (case split_ws r of
              [] \<Rightarrow> [[c]]
            | h # t \<Rightarrow> (c # h) # t))"
  by pat_completeness auto
termination
proof (relation "measure length")
  show "wf (measure length)" by simp
next
  fix c :: nat and r :: jsstring
  have "length (dropWhile is_ws r) \<le> length r" by (rule length_dropWhile_le)
  then show "(dropWhile is_ws r, c # r) \<in> measure length" by simp
next
  fix c :: nat and r :: jsstring
  show "(r, c # r) \<in> measure length" by simp
qed

definition searchItems ::
  "(jsstring \<Rightarrow> jsstring) \<Rightarrow> jsstring \<Rightarrow> SearchMode \<Rightarrow> item list \<Rightarrow> item list" where
  "searchItems toLowerCase searchQuery searchMode xs =
     (if trim searchQuery \<noteq> [] then
        (let query = toLowerCase (trim searchQuery) in
         filter (\<lambda>it.
           if searchMode = ReadingSearch then
             (let okuriganaMatches = match_all (reading it) in
              if okuriganaMatches = [] then False
              else (let okuriganaText =
                          concat (map (filter (\<lambda>x. x \<noteq> squote)) okuriganaMatches)
                    in js_includes (toLowerCase okuriganaText) query))
           else
             (let componentList =
                    map (\<lambda>c. toLowerCase (trim c))
                      (filter (\<lambda>c. c \<noteq> []) (split_ws (or_empty (components it))))
              in list_ex (\<lambda>component. js_includes component query) componentList)) xs)
      else xs)"

section \<open>Quiz\<close>

datatype Mode = ListMode | QuizMode

datatype QuizFormat = InputFormat | ChoiceFormat

record score_rec =
  correct :: nat
  incorrect :: nat

text \<open>The state variables of the component \<^verbatim>\<open>App\<close> that the quiz and the list read or write.\<close>

record app_state =
  items :: "item list option"
  selectedGenre :: jsstring
  searchQuery :: jsstring
  searchMode :: SearchMode
  mode :: Mode
  quizFormat :: QuizFormat
  quizItems :: "item list"
  currentIndex :: nat
  userAnswer :: jsstring
  showResult :: bool
  isCorrect :: bool
  score :: score_rec
  choices :: "jsstring list"
  correctChoiceIndex :: int

text \<open>The state in which the component is mounted, before the catalog has arrived.\<close>

definition initial_state :: app_state where
  "initial_state =
     \<lparr>items = None, selectedGenre = genre_all, searchQuery = [], searchMode = ReadingSearch,
      mode = ListMode, quizFormat = InputFormat, quizItems = [], currentIndex = 0,
      userAnswer = [], showResult = False, isCorrect = False,
      score = \<lparr>correct = 0, incorrect = 0\<rparr>, choices = [], correctChoiceIndex = - 1\<rparr>"

text \<open>The list that the browsing view shows.\<close>

definition filteredItems :: "(jsstring \<Rightarrow> jsstring) \<Rightarrow> app_state \<Rightarrow> item list" where
  "filteredItems toLowerCase st =
     (case items st of
        None \<Rightarrow> []
      | Some xs \<Rightarrow>
          searchItems toLowerCase (searchQuery st) (searchMode st)
            (filterByGenre (selectedGenre st) xs))"

text \<open>
  \<^verbatim>\<open>startQuiz\<close>. The result of \<^verbatim>\<open>[...items].sort(() => Math.random() - 0.5)\<close> is
  some rearrangement of the items; the rearrangement is the parameter \<open>shuffle\<close>.
\<close>

definition startQuiz :: "(item list \<Rightarrow> item list) \<Rightarrow> app_state \<Rightarrow> app_state" where
  "startQuiz shuffle st =
     (case items st of
        None \<Rightarrow> st
      | Some xs \<Rightarrow>
          if length xs = 0 then st
          else st\<lparr>quizItems := shuffle xs, currentIndex := 0, userAnswer := [],
                  showResult := False, score := \<lparr>correct = 0, incorrect = 0\<rparr>,
                  mode := QuizMode\<rparr>)"

text \<open>\<^verbatim>\<open>wrongChoices[wrongIndex] || ''\<close>: undefined beyond the array, falsy when empty.\<close>

definition wrong_or_empty :: "jsstring list \<Rightarrow> nat \<Rightarrow> jsstring" where
  "wrong_or_empty wrongChoices wrongIndex =
     (if wrongIndex < length wrongChoices
      then (if wrongChoices ! wrongIndex = [] then [] else wrongChoices ! wrongIndex)
      else [])"

text \<open>The \<^verbatim>\<open>for\<close> loop of \<^verbatim>\<open>generateChoices\<close>, with its variables.\<close>

function fill_choices ::
  "jsstring \<Rightarrow> jsstring list \<Rightarrow> nat \<Rightarrow> nat \<Rightarrow> nat \<Rightarrow> jsstring list \<Rightarrow> jsstring list" where
  "fill_choices correctReading wrongChoices correctIndex i wrongIndex choicesArray =
     (if i < 4 then
        (if i = correctIndex then
           fill_choices correctReading wrongChoices correctIndex (i + 1) wrongIndex
             (choicesArray @ [extractReadingCore correctReading])
         else
           fill_choices correctReading wrongChoices correctIndex (i + 1) (wrongIndex + 1)
             (choicesArray @ [extractReadingCore (wrong_or_empty wrongChoices wrongIndex)]))
      else choicesArray)"
  by pat_completeness auto
termination
  by (relation "measure (\<lambda>(c, w, k, i, j, a). 4 - i)") auto

declare fill_choices.simps [simp del]

text \<open>
  \<^verbatim>\<open>generateChoices\<close>; \<open>wrongPool\<close> is its list \<^verbatim>\<open>others\<close>. \<open>shuffle\<close> is the
  rearrangement made by the random sort and \<open>rnd\<close> the value of \<^verbatim>\<open>Math.random()\<close>,
  a number from 0 up to but not including 1; multiplying it by 4 is exact.
\<close>

definition wrongPool :: "item \<Rightarrow> item list \<Rightarrow> item list" where
  "wrongPool correctItem allItems = filter (\<lambda>it. reading it \<noteq> reading correctItem) allItems"

definition generateChoices ::
  "(item list \<Rightarrow> item list) \<Rightarrow> real \<Rightarrow> item \<Rightarrow> item list \<Rightarrow> jsstring list \<times> nat" where
  "generateChoices shuffle rnd correctItem allItems =
     (let correctReading = reading correctItem;
          others = wrongPool correctItem allItems;
          shuffledOthers = shuffle others;
          wrongChoices = map reading (take 3 shuffledOthers);
          correctIndex = nat \<lfloor>rnd * 4\<rfloor>
      in (fill_choices correctReading wrongChoices correctIndex 0 0 [], correctIndex))"

text \<open>
  The effect that refreshes the choices. React runs it after a render in which
  \<^verbatim>\<open>mode\<close>, \<^verbatim>\<open>quizFormat\<close>, \<^verbatim>\<open>quizItems\<close> or \<^verbatim>\<open>currentIndex\<close> has changed.
\<close>

definition choicesEffect :: "(item list \<Rightarrow> item list) \<Rightarrow> real \<Rightarrow> app_state \<Rightarrow> app_state" where
  "choicesEffect shuffle rnd st =
     (if mode st = QuizMode \<and> quizFormat st = ChoiceFormat \<and> length (quizItems st) > 0
         \<and> currentIndex st < length (quizItems st)
      then (let result = generateChoices shuffle rnd (quizItems st ! currentIndex st) (quizItems st)
            in st\<lparr>choices := fst result, correctChoiceIndex := int (snd result)\<rparr>)
      else st)"

definition backToList :: "app_state \<Rightarrow> app_state" where
  "backToList st = st\<lparr>mode := ListMode, userAnswer := [], showResult := False\<rparr>"

definition add_correct :: "score_rec \<Rightarrow> score_rec" where
  "add_correct prev = prev\<lparr>correct := correct prev + 1\<rparr>"

definition add_incorrect :: "score_rec \<Rightarrow> score_rec" where
  "add_incorrect prev = prev\<lparr>incorrect := incorrect prev + 1\<rparr>"

text \<open>\<^verbatim>\<open>checkAnswer\<close>; \<^verbatim>\<open>quizItems[currentIndex]\<close> is undefined beyond the array.\<close>

definition checkAnswer :: "app_state \<Rightarrow> app_state" where
  "checkAnswer st =
     (if \<not> currentIndex st < length (quizItems st) then st
      else
        (let correctReading = reading (quizItems st ! currentIndex st);
             ok = answer_matches (userAnswer st) correctReading
         in st\<lparr>isCorrect := ok, showResult := True,
                score := (if ok then add_correct (score st) else add_incorrect (score st))\<rparr>))"

definition giveUp :: "app_state \<Rightarrow> app_state" where
  "giveUp st =
     (if \<not> currentIndex st < length (quizItems st) then st
      else st\<lparr>isCorrect := False, showResult := True, score := add_incorrect (score st)\<rparr>)"

text \<open>
  \<^verbatim>\<open>nextQuestion\<close>; behind the last question it shows the score in an alert and goes
  back to the list.
\<close>

definition nextQuestion :: "app_state \<Rightarrow> app_state" where
  "nextQuestion st =
     (if int (currentIndex st) < int (length (quizItems st)) - 1
      then st\<lparr>currentIndex := currentIndex st + 1, userAnswer := [], showResult := False\<rparr>
      else backToList st)"

text \<open>The click handler of the two format buttons.\<close>

definition selectFormat :: "QuizFormat \<Rightarrow> app_state \<Rightarrow> app_state" where
  "selectFormat f st = st\<lparr>quizFormat := f, userAnswer := [], showResult := False\<rparr>"

text \<open>
  The click handler of choice button \<open>idx\<close>; the buttons come from
  \<^verbatim>\<open>choices.map\<close>, so there is none beyond the array.
\<close>

definition clickChoice :: "nat \<Rightarrow> app_state \<Rightarrow> app_state" where
  "clickChoice idx st =
     (if idx < length (choices st) \<and> \<not> showResult st then
        (let ok = (int idx = correctChoiceIndex st)
         in st\<lparr>userAnswer := choices st ! idx, isCorrect := ok, showResult := True,
                score := (if ok then add_correct (score st) else add_incorrect (score st))\<rparr>)
      else st)"

text \<open>The key handler of the answer field, for the Enter key.\<close>

definition pressEnter :: "app_state \<Rightarrow> app_state" where
  "pressEnter st = (if \<not> showResult st then checkAnswer st else nextQuestion st)"

text \<open>
  What the user can do. Each event is offered by an element of the page, and the page
  shows or enables that element only in some states: \<open>enabled\<close> is the condition under
  which the JSX renders the element and leaves it enabled.
\<close>

datatype event =
    SelectGenre jsstring
  | TypeSearch jsstring
  | SelectSearchMode SearchMode
  | ClickStartQuiz
  | ClickBack
  | ClickFormat QuizFormat
  | TypeAnswer jsstring
  | ClickSubmit
  | PressEnter
  | ClickGiveUp
  | ClickChoice nat
  | ClickNext

definition list_view :: "app_state \<Rightarrow> bool" where
  "list_view st \<longleftrightarrow> items st \<noteq> None \<and> mode st = ListMode"

definition quiz_view :: "app_state \<Rightarrow> bool" where
  "quiz_view st \<longleftrightarrow> mode st = QuizMode \<and> length (quizItems st) > 0"

fun enabled :: "event \<Rightarrow> app_state \<Rightarrow> bool" where
  "enabled (SelectGenre g) st = list_view st"
| "enabled (TypeSearch q) st = list_view st"
| "enabled (SelectSearchMode m) st = list_view st"
| "enabled ClickStartQuiz st = list_view st"
| "enabled ClickBack st = quiz_view st"
| "enabled (ClickFormat f) st = quiz_view st"
| "enabled (TypeAnswer a) st = (quiz_view st \<and> quizFormat st = InputFormat \<and> \<not> showResult st)"
| "enabled ClickSubmit st =
     (quiz_view st \<and> \<not> showResult st \<and> quizFormat st = InputFormat \<and> trim (userAnswer st) \<noteq> [])"
| "enabled PressEnter st = (quiz_view st \<and> quizFormat st = InputFormat \<and> \<not> showResult st)"
| "enabled ClickGiveUp st = (quiz_view st \<and> \<not> showResult st \<and> quizFormat st = InputFormat)"
| "enabled (ClickChoice idx) st =
     (quiz_view st \<and> quizFormat st = ChoiceFormat \<and> idx < length (choices st) \<and> \<not> showResult st)"
| "enabled ClickNext st = (quiz_view st \<and> showResult st)"

fun handler :: "(item list \<Rightarrow> item list) \<Rightarrow> event \<Rightarrow> app_state \<Rightarrow> app_state" where
  "handler shuffle (SelectGenre g) st = st\<lparr>selectedGenre := g\<rparr>"
| "handler shuffle (TypeSearch q) st = st\<lparr>searchQuery := q\<rparr>"
| "handler shuffle (SelectSearchMode m) st = st\<lparr>searchMode := m, searchQuery := []\<rparr>"
| "handler shuffle ClickStartQuiz st = startQuiz shuffle st"
| "handler shuffle ClickBack st = backToList st"
| "handler shuffle (ClickFormat f) st = selectFormat f st"
| "handler shuffle (TypeAnswer a) st = st\<lparr>userAnswer := a\<rparr>"
| "handler shuffle ClickSubmit st = checkAnswer st"
| "handler shuffle PressEnter st = pressEnter st"
| "handler shuffle ClickGiveUp st = giveUp st"
| "handler shuffle (ClickChoice idx) st = clickChoice idx st"
| "handler shuffle ClickNext st = nextQuestion st"

text \<open>
  One event: the handler runs when the element is there, and then the effect, when one
  of its dependencies has changed (a started quiz always changes \<^verbatim>\<open>mode\<close>). The
  random outcomes used by this event are \<open>shuffle\<close> and \<open>rnd\<close>.
\<close>

definition step :: "(item list \<Rightarrow> item list) \<Rightarrow> real \<Rightarrow> event \<Rightarrow> app_state \<Rightarrow> app_state" where
  "step shuffle rnd ev st =
     (if \<not> enabled ev st then st
      else
        (let st' = handler shuffle ev st in
         if mode st' \<noteq> mode st \<or> quizFormat st' \<noteq> quizFormat st
            \<or> currentIndex st' \<noteq> currentIndex st \<or> quizItems st' \<noteq> quizItems st
         then choicesEffect shuffle rnd st' else st'))"

text \<open>A run of events, each with its own random outcomes.\<close>

fun run :: "((item list \<Rightarrow> item list) \<times> real \<times> event) list \<Rightarrow> app_state \<Rightarrow> app_state" where
  "run [] st = st"
| "run ((shuffle, rnd, ev) # evs) st = run evs (step shuffle rnd ev st)"

section \<open>Properties of the reading annotation\<close>

lemma dropWhile_no_quote: "squote \<notin> set r \<Longrightarrow> dropWhile (\<lambda>x. x \<noteq> squote) r = []"
  by (induction r) auto

lemma core_no_quote: "squote \<notin> set s \<Longrightarrow> extractReadingCore s = s"
  by (induction s) auto

lemma core_open_quote: "squote \<notin> set r \<Longrightarrow> extractReadingCore (squote # r) = squote # r"
  by (simp add: dropWhile_no_quote core_no_quote del: dropWhile_eq_Nil_conv)

lemma core_at_most_one_quote:
  "length (filter (\<lambda>x. x = squote) s) \<le> 1 \<Longrightarrow> extractReadingCore s = s"
proof (induction s)
  case Nil
  then show ?case by simp
next
  case (Cons c r)
  show ?case
  proof (cases "c = squote")
    case True
    with Cons.prems have "filter (\<lambda>x. x = squote) r = []" by simp
    then have "squote \<notin> set r" by (auto simp: filter_empty_conv)
    then have "extractReadingCore (squote # r) = squote # r" by (rule core_open_quote)
    with True show ?thesis by (simp only:)
  next
    case False
    with Cons show ?thesis by simp
  qed
qed

lemma core_leaves_one_quote:
  "length (filter (\<lambda>x. x = squote) (extractReadingCore s)) \<le> 1"
proof (induction s rule: extractReadingCore.induct)
  case 1
  show ?case by simp
next
  case (2 c r)
  show ?case
  proof (cases "c = squote")
    case False
    with 2 show ?thesis by simp
  next
    case True
    show ?thesis
    proof (cases "dropWhile (\<lambda>x. x \<noteq> squote) r")
      case Nil
      then have nq: "squote \<notin> set r" by auto
      then have f: "filter (\<lambda>x. x = squote) r = []" by (auto simp: filter_empty_conv)
      from nq have "extractReadingCore (squote # r) = squote # r" by (rule core_open_quote)
      with True f show ?thesis by (simp only:) simp
    next
      case (Cons q rest)
      with True 2 show ?thesis by simp
    qed
  qed
qed

text \<open>
  Claim C7. \<^verbatim>\<open>extractReadingCore\<close> is idempotent: taking the core of a core changes
  nothing, for every string. (A core holds at most one quote, the unpaired last one, and
  a string with at most one quote has no span to remove.)
\<close>

theorem extractReadingCore_idempotent:
  "extractReadingCore (extractReadingCore s) = extractReadingCore s"
  by (rule core_at_most_one_quote) (rule core_leaves_one_quote)

lemma match_here_plain: "c \<noteq> squote \<Longrightarrow> match_here (c # r) = None"
  by (simp add: match_here_def)

lemma regex_exec_skip:
  "squote \<notin> set pre \<Longrightarrow>
   regex_exec (pre @ s) =
     (case regex_exec s of None \<Rightarrow> None | Some (p, b, rest) \<Rightarrow> Some (pre @ p, b, rest))"
proof (induction pre)
  case Nil
  show ?case by (simp split: option.splits)
next
  case (Cons c pre)
  then have "c \<noteq> squote" and "squote \<notin> set pre" by auto
  then show ?case
    using Cons.IH by (simp add: match_here_plain split: option.splits)
qed

lemma regex_exec_no_quote: "squote \<notin> set s \<Longrightarrow> regex_exec s = None"
  using regex_exec_skip [of s "[]"] by simp

lemma takeWhile_no_quote: "squote \<notin> set (takeWhile (\<lambda>x. x \<noteq> squote) s)"
  by (induction s) auto

lemma filter_no_quote: "squote \<notin> set s \<Longrightarrow> filter (\<lambda>x. x \<noteq> squote) s = s"
  by (induction s) auto

text \<open>Paired quotes are balanced: the condition of the next theorem is within that of the claim.\<close>

lemma filter_quote_takeWhile: "filter (\<lambda>x. x = squote) (takeWhile (\<lambda>x. x \<noteq> squote) s) = []"
  by (induction s) auto

lemma quotes_paired_balanced: "quotes_paired s \<Longrightarrow> balanced_quotes s"
proof (induction s rule: quotes_paired.induct)
  case (1 s)
  let ?P = "\<lambda>x. x \<noteq> squote"
  let ?Q = "\<lambda>x. x = squote"
  show ?case
  proof (cases "dropWhile ?P s")
    case Nil
    then have "squote \<notin> set s" by auto
    then have "filter ?Q s = []" by (auto simp: filter_empty_conv)
    then show ?thesis by (simp add: balanced_quotes_def)
  next
    case (Cons q r)
    then have q: "q = squote"
      by (metis (mono_tags, lifting) hd_dropWhile list.sel(1) list.simps(3))
    from "1.prems" Cons obtain q' r'
      where d: "dropWhile ?P r = q' # r'" and p: "quotes_paired r'"
      by (subst (asm) quotes_paired.simps) (auto split: list.splits)
    from d have q': "q' = squote"
      by (metis (mono_tags, lifting) hd_dropWhile list.sel(1) list.simps(3))
    have IH: "balanced_quotes r'" using "1.IH" [OF Cons d p] .
    have s: "s = takeWhile ?P s @ squote # r"
      using Cons q by (metis takeWhile_dropWhile_id)
    have r: "r = takeWhile ?P r @ squote # r'"
      using d q' by (metis takeWhile_dropWhile_id)
    have "filter ?Q s = filter ?Q (takeWhile ?P s) @ squote # filter ?Q (takeWhile ?P r) @ squote # filter ?Q r'"
      by (subst s, subst r) simp
    then have "length (filter ?Q s) = Suc (Suc (length (filter ?Q r')))"
      by (simp add: filter_quote_takeWhile)
    with IH show ?thesis by (simp add: balanced_quotes_def)
  qed
qed

text \<open>
  Claim C3, as the code has it. When the quotes of a reading pair up from the left and
  every pair encloses at least one code unit, the texts of the segments of
  \<^verbatim>\<open>formatReadingWithOkurigana\<close>, put together, are the reading without its quotes.
\<close>

theorem render_text_paired:
  "quotes_paired s \<Longrightarrow>
   concat (map stext (formatReadingWithOkurigana s)) = filter (\<lambda>x. x \<noteq> squote) s"
proof (induction s rule: quotes_paired.induct)
  case (1 s)
  let ?P = "\<lambda>x. x \<noteq> squote"
  show ?case
  proof (cases "dropWhile ?P s")
    case Nil
    then have nq: "squote \<notin> set s" by auto
    then have "regex_exec s = None" by (rule regex_exec_no_quote)
    then have "concat (map stext (formatReadingWithOkurigana s)) = s"
      by (simp add: formatReadingWithOkurigana.simps)
    with nq show ?thesis by (simp add: filter_no_quote)
  next
    case (Cons q r)
    then have q: "q = squote"
      by (metis (mono_tags, lifting) hd_dropWhile list.sel(1) list.simps(3))
    from "1.prems" Cons have body: "takeWhile ?P r \<noteq> []"
      by (subst (asm) quotes_paired.simps) simp
    from "1.prems" Cons obtain q' r'
      where d: "dropWhile ?P r = q' # r'" and p: "quotes_paired r'"
      by (subst (asm) quotes_paired.simps) (auto split: list.splits)
    from d have q': "q' = squote"
      by (metis (mono_tags, lifting) hd_dropWhile list.sel(1) list.simps(3))
    have IH: "concat (map stext (formatReadingWithOkurigana r')) = filter ?P r'"
      using "1.IH" [OF Cons d p] .
    have s: "s = takeWhile ?P s @ squote # r"
      using Cons q by (metis takeWhile_dropWhile_id)
    have r: "r = takeWhile ?P r @ squote # r'"
      using d q' by (metis takeWhile_dropWhile_id)
    have "match_here (squote # r) = Some (takeWhile ?P r, r')"
      using body d by (simp add: match_here_def)
    then have "regex_exec (squote # r) = Some ([], takeWhile ?P r, r')" by simp
    then have "regex_exec (takeWhile ?P s @ squote # r)
               = Some (takeWhile ?P s, takeWhile ?P r, r')"
      by (simp add: regex_exec_skip [OF takeWhile_no_quote])
    with s have e: "regex_exec s = Some (takeWhile ?P s, takeWhile ?P r, r')" by simp
    have "concat (map stext (formatReadingWithOkurigana s))
          = takeWhile ?P s @ takeWhile ?P r @ filter ?P r'"
      by (subst formatReadingWithOkurigana.simps) (simp add: e IH)
    moreover have "filter ?P s
          = filter ?P (takeWhile ?P s) @ filter ?P (takeWhile ?P r) @ filter ?P r'"
      by (subst s, subst r) simp
    ultimately show ?thesis
      by (simp add: filter_no_quote [OF takeWhile_no_quote])
  qed
qed

text \<open>
  The theorem at a reading of two kana, then two kana in quotes (U+3042 U+3084 for the
  stem, U+3057 U+3044 for the okurigana): its quotes are paired, and the segments give
  the four kana.
\<close>

theorem render_text_paired_witness:
  "quotes_paired [12354, 12420, 39, 12375, 12356, 39] \<and>
   concat (map stext (formatReadingWithOkurigana [12354, 12420, 39, 12375, 12356, 39]))
     = [12354, 12420, 12375, 12356]"
proof -
  have p: "quotes_paired [12354, 12420, 39, 12375, 12356, 39]"
    by (simp add: quotes_paired.simps)
  from render_text_paired [OF p] p show ?thesis by simp
qed

text \<open>
  Claim C3 as stated fails at the reading \<^verbatim>\<open>''\<close>: its two quotes are balanced, but the
  pattern asks for at least one code unit between them, so nothing matches and the
  single segment still holds both quotes.
\<close>

theorem render_text_balanced_counterexample:
  "balanced_quotes [squote, squote] \<and>
   concat (map stext (formatReadingWithOkurigana [squote, squote]))
     \<noteq> filter (\<lambda>x. x \<noteq> squote) [squote, squote]"
  by (simp add: balanced_quotes_def formatReadingWithOkurigana.simps match_here_def)


section \<open>Properties of the answer check\<close>

lemma ws_not_quote: "is_ws c \<Longrightarrow> c \<noteq> squote"
  by (auto simp: is_ws_def)

lemma core_prepend:
  "squote \<notin> set w \<Longrightarrow> extractReadingCore (w @ s) = w @ extractReadingCore s"
  by (induction w) auto

lemma dropWhile_quote_append:
  "squote \<notin> set w \<Longrightarrow>
   dropWhile (\<lambda>x. x \<noteq> squote) (r @ w) =
     (case dropWhile (\<lambda>x. x \<noteq> squote) r of [] \<Rightarrow> [] | q # rest \<Rightarrow> q # rest @ w)"
  by (induction r) (auto simp: dropWhile_no_quote)

lemma core_append:
  "squote \<notin> set w \<Longrightarrow> extractReadingCore (s @ w) = extractReadingCore s @ w"
proof (induction s rule: extractReadingCore.induct)
  case 1
  then show ?case by (simp add: core_no_quote)
next
  case (2 c r)
  show ?case
  proof (cases "c = squote")
    case False
    with 2 show ?thesis by simp
  next
    case True
    show ?thesis
    proof (cases "dropWhile (\<lambda>x. x \<noteq> squote) r")
      case Nil
      with True 2 show ?thesis
        by (simp add: dropWhile_quote_append del: dropWhile_eq_Nil_conv)
    next
      case (Cons q rest)
      with True 2 show ?thesis
        by (simp add: dropWhile_quote_append del: dropWhile_eq_Nil_conv)
    qed
  qed
qed

lemma trim_ws_left: "\<forall>x\<in>set w. is_ws x \<Longrightarrow> trim (w @ s) = trim s"
  by (simp add: trim_def dropWhile_append2)

lemma trim_ws_right:
  assumes "\<forall>x\<in>set w. is_ws x"
  shows "trim (s @ w) = trim s"
proof (cases "\<forall>x\<in>set s. is_ws x")
  case True
  with assms have "dropWhile is_ws (s @ w) = []" and "dropWhile is_ws s = []" by auto
  then show ?thesis by (simp only: trim_def)
next
  case False
  then obtain x where "x \<in> set s" "\<not> is_ws x" by blast
  then have "dropWhile is_ws (s @ w) = dropWhile is_ws s @ w"
    by (rule dropWhile_append1)
  moreover have "dropWhile is_ws (rev w @ rev (dropWhile is_ws s))
                 = dropWhile is_ws (rev (dropWhile is_ws s))"
    by (rule dropWhile_append2) (use assms in auto)
  ultimately show ?thesis by (simp add: trim_def)
qed

lemma trim_decompose:
  "\<exists>w1 w2. s = w1 @ trim s @ w2 \<and> (\<forall>x\<in>set w1. is_ws x) \<and> (\<forall>x\<in>set w2. is_ws x)"
proof -
  let ?d = "dropWhile is_ws s"
  let ?w1 = "takeWhile is_ws s"
  let ?w2 = "rev (takeWhile is_ws (rev ?d))"
  have "rev (takeWhile is_ws (rev ?d) @ dropWhile is_ws (rev ?d)) = rev (rev ?d)"
    by (simp only: takeWhile_dropWhile_id)
  then have "rev (dropWhile is_ws (rev ?d)) @ ?w2 = ?d"
    by (simp only: rev_append rev_rev_ident)
  then have "?d = trim s @ ?w2" by (simp only: trim_def)
  moreover have "s = ?w1 @ ?d" by simp
  ultimately have "s = ?w1 @ trim s @ ?w2" by simp
  moreover have "\<forall>x\<in>set ?w1. is_ws x" by (meson set_takeWhileD)
  moreover have "\<forall>x\<in>set ?w2. is_ws x" by (metis set_rev set_takeWhileD)
  ultimately show ?thesis by blast
qed

lemma trim_core_commute:
  assumes "trim (extractReadingCore (trim alt)) = extractReadingCore (trim alt)"
  shows "trim (extractReadingCore alt) = extractReadingCore (trim alt)"
proof -
  obtain w1 w2 where d: "alt = w1 @ trim alt @ w2"
    and w1: "\<forall>x\<in>set w1. is_ws x" and w2: "\<forall>x\<in>set w2. is_ws x"
    using trim_decompose by blast
  from w1 have n1: "squote \<notin> set w1" using ws_not_quote by blast
  from w2 have n2: "squote \<notin> set w2" using ws_not_quote by blast
  have "extractReadingCore (w1 @ trim alt @ w2) = w1 @ extractReadingCore (trim alt) @ w2"
    using n1 n2 by (simp add: core_prepend core_append)
  then have "trim (extractReadingCore (w1 @ trim alt @ w2))
             = trim (extractReadingCore (trim alt))"
    using w1 w2 by (simp add: trim_ws_left trim_ws_right)
  with d assms show ?thesis by simp
qed

text \<open>
  Claim C4, as the code has it. For every entry and every alternative \<open>alt\<close> of its
  reading (a piece between full-width commas) such that the core of the trimmed
  alternative neither begins nor ends with white space, the answer check accepts the
  text \<open>core(alt)\<close>.
\<close>

theorem core_of_alternative_accepted:
  assumes "alt \<in> set (split_on touten (reading entry))"
    and "trim (extractReadingCore (trim alt)) = extractReadingCore (trim alt)"
  shows "answer_matches (extractReadingCore alt) (reading entry)"
proof -
  have "trim (extractReadingCore alt) = extractReadingCore (trim alt)"
    using assms(2) by (rule trim_core_commute)
  moreover have "trim alt \<in> set (map trim (split_on touten (reading entry)))"
    using assms(1) by simp
  ultimately show ?thesis
    unfolding answer_matches_def Let_def list_ex_iff by blast
qed

text \<open>
  The theorem at the entry whose reading is two quoted kana, a full-width comma and
  three kana, for the alternative of three kana.
\<close>

theorem core_of_alternative_accepted_witness:
  "[12402, 12363, 12427]
     \<in> set (split_on touten
              (reading (entry_reading [39, 12390, 12427, 39, 12289, 12402, 12363, 12427]))) \<and>
   trim (extractReadingCore (trim [12402, 12363, 12427]))
     = extractReadingCore (trim [12402, 12363, 12427]) \<and>
   answer_matches (extractReadingCore [12402, 12363, 12427])
     (reading (entry_reading [39, 12390, 12427, 39, 12289, 12402, 12363, 12427]))"
proof -
  have a: "[12402, 12363, 12427]
     \<in> set (split_on touten
              (reading (entry_reading [39, 12390, 12427, 39, 12289, 12402, 12363, 12427])))"
    by simp
  have b: "trim (extractReadingCore (trim [12402, 12363, 12427]))
     = extractReadingCore (trim [12402, 12363, 12427])"
    by (simp add: trim_def is_ws_def)
  from core_of_alternative_accepted [OF a b] a b show ?thesis by blast
qed

text \<open>
  Claim C4 as stated fails at the entry whose reading is a quoted kana, a space and a
  kana: its only alternative is the whole reading, whose core is the space and the kana;
  the submitted core is trimmed to the kana alone, the option is trimmed before its core
  is taken and keeps the space, and the two differ.
\<close>

theorem core_of_alternative_rejected_counterexample:
  "[39, 12354, 39, 32, 12356]
     \<in> set (split_on touten (reading (entry_reading [39, 12354, 39, 32, 12356]))) \<and>
   \<not> answer_matches (extractReadingCore [39, 12354, 39, 32, 12356])
       (reading (entry_reading [39, 12354, 39, 32, 12356]))"
  by (simp add: answer_matches_def trim_def is_ws_def)

text \<open>
  Claim C5. For the reading made of the quoted kana U+3066 U+308B, a full-width comma
  and the kana U+3072 U+304B U+308B, the answer check of the input format accepts the
  three kana and rejects the two kana of the quoted span.
\<close>

theorem quoted_span_is_no_answer:
  "answer_matches [12402, 12363, 12427]
     [39, 12390, 12427, 39, 12289, 12402, 12363, 12427] \<and>
   \<not> answer_matches [12390, 12427]
       [39, 12390, 12427, 39, 12289, 12402, 12363, 12427] \<and>
   isCorrect (checkAnswer (initial_state
     \<lparr>mode := QuizMode,
      quizItems := [entry_reading [39, 12390, 12427, 39, 12289, 12402, 12363, 12427]],
      userAnswer := [12402, 12363, 12427]\<rparr>)) \<and>
   \<not> isCorrect (checkAnswer (initial_state
     \<lparr>mode := QuizMode,
      quizItems := [entry_reading [39, 12390, 12427, 39, 12289, 12402, 12363, 12427]],
      userAnswer := [12390, 12427]\<rparr>))"
  by (simp add: checkAnswer_def initial_state_def answer_matches_def trim_def is_ws_def)

section \<open>Properties of the choice generation\<close>

lemma fill_choices_closed:
  assumes "k < 4"
  shows "fill_choices c w k 0 0 [] =
           take k (map (\<lambda>j. extractReadingCore (wrong_or_empty w j)) [0, 1, 2])
           @ [extractReadingCore c]
           @ drop k (map (\<lambda>j. extractReadingCore (wrong_or_empty w j)) [0, 1, 2])"
proof -
  from assms consider "k = 0" | "k = 1" | "k = 2" | "k = 3" by linarith
  then show ?thesis
  proof cases
    case 1 then show ?thesis by (simp add: fill_choices.simps numeral_2_eq_2)
  next
    case 2 then show ?thesis by (simp add: fill_choices.simps numeral_2_eq_2)
  next
    case 3 then show ?thesis by (simp add: fill_choices.simps numeral_2_eq_2)
  next
    case 4 then show ?thesis by (simp add: fill_choices.simps numeral_2_eq_2)
  qed
qed

lemma random_slot: "0 \<le> rnd \<Longrightarrow> rnd < (1::real) \<Longrightarrow> nat \<lfloor>rnd * 4\<rfloor> < 4"
proof -
  assume a: "0 \<le> rnd" "rnd < (1::real)"
  then have "rnd * 4 < of_int 4" by simp
  then have "\<lfloor>rnd * 4\<rfloor> < 4" by (simp only: floor_less_iff)
  then show ?thesis by linarith
qed

lemma distinct_insert_at:
  "distinct ws \<Longrightarrow> x \<notin> set ws \<Longrightarrow> distinct (take k ws @ [x] @ drop k ws)"
proof -
  assume d: "distinct ws" and x: "x \<notin> set ws"
  have "distinct (take k ws @ drop k ws)" using d by simp
  then have "distinct (take k ws)" "distinct (drop k ws)" "set (take k ws) \<inter> set (drop k ws) = {}"
    by (simp_all only: distinct_append)
  moreover have "x \<notin> set (take k ws)" "x \<notin> set (drop k ws)"
    using x by (auto dest: in_set_takeD in_set_dropD)
  ultimately show ?thesis by auto
qed

lemma wrong_slots:
  assumes "mset sh = mset pool"
  shows "map (\<lambda>j. extractReadingCore (wrong_or_empty (map reading (take 3 sh)) j)) [0, 1, 2]
         = map (\<lambda>j. if j < length pool then extractReadingCore (reading (sh ! j)) else []) [0, 1, 2]"
proof -
  have "length sh = length pool" using assms by (rule mset_eq_length)
  then show ?thesis by (auto simp: wrong_or_empty_def)
qed

lemma wrong_slots_distinct:
  assumes m: "mset sh = mset pool" and l: "3 \<le> length pool"
    and d: "distinct (map (\<lambda>it. extractReadingCore (reading it)) pool)"
  shows "map (\<lambda>j. if j < length pool then extractReadingCore (reading (sh ! j)) else []) [0, 1, 2]
         = map (\<lambda>it. extractReadingCore (reading it)) (take 3 sh)"
    and "distinct (map (\<lambda>it. extractReadingCore (reading it)) (take 3 sh))"
    and "set (map (\<lambda>it. extractReadingCore (reading it)) (take 3 sh))
         \<subseteq> set (map (\<lambda>it. extractReadingCore (reading it)) pool)"
proof -
  have len: "length sh = length pool" using m by (rule mset_eq_length)
  with l have l3: "3 \<le> length sh" by simp
  then have "take 3 sh = [sh ! 0, sh ! 1, sh ! 2]"
    by (cases sh; cases "tl sh"; cases "tl (tl sh)") (auto simp: numeral_3_eq_3)
  moreover have "0 < length pool" "1 < length pool" "2 < length pool" using l by auto
  ultimately show "map (\<lambda>j. if j < length pool then extractReadingCore (reading (sh ! j)) else []) [0, 1, 2]
         = map (\<lambda>it. extractReadingCore (reading it)) (take 3 sh)"
    by simp
  have "mset (map (\<lambda>it. extractReadingCore (reading it)) sh)
        = mset (map (\<lambda>it. extractReadingCore (reading it)) pool)"
    using m by simp
  then have dsh: "distinct (map (\<lambda>it. extractReadingCore (reading it)) sh)"
    using d by (metis mset_eq_imp_distinct_iff)
  then show "distinct (map (\<lambda>it. extractReadingCore (reading it)) (take 3 sh))"
    by (simp add: take_map [symmetric] del: take_map)
  have "set sh = set pool" using m by (rule mset_eq_setD)
  then show "set (map (\<lambda>it. extractReadingCore (reading it)) (take 3 sh))
         \<subseteq> set (map (\<lambda>it. extractReadingCore (reading it)) pool)"
    by (auto dest: in_set_takeD)
qed

lemma generateChoices_closed:
  assumes r0: "0 \<le> rnd" and r1: "rnd < 1"
    and m: "mset (shuffle (wrongPool correctItem allItems)) = mset (wrongPool correctItem allItems)"
  shows "generateChoices shuffle rnd correctItem allItems =
           (take (nat \<lfloor>rnd * 4\<rfloor>)
              (map (\<lambda>j. if j < length (wrongPool correctItem allItems)
                        then extractReadingCore
                               (reading (shuffle (wrongPool correctItem allItems) ! j))
                        else []) [0, 1, 2])
            @ [extractReadingCore (reading correctItem)]
            @ drop (nat \<lfloor>rnd * 4\<rfloor>)
              (map (\<lambda>j. if j < length (wrongPool correctItem allItems)
                        then extractReadingCore
                               (reading (shuffle (wrongPool correctItem allItems) ! j))
                        else []) [0, 1, 2]),
            nat \<lfloor>rnd * 4\<rfloor>)"
proof -
  have k: "nat \<lfloor>rnd * 4\<rfloor> < 4" using r0 r1 by (rule random_slot)
  have "generateChoices shuffle rnd correctItem allItems
        = (fill_choices (reading correctItem)
             (map reading (take 3 (shuffle (wrongPool correctItem allItems))))
             (nat \<lfloor>rnd * 4\<rfloor>) 0 0 [], nat \<lfloor>rnd * 4\<rfloor>)"
    by (simp only: generateChoices_def Let_def)
  then show ?thesis
    by (simp only: fill_choices_closed [OF k] wrong_slots [OF m])
qed

lemma equal_image_pair:
  "\<not> distinct (map f xs) \<Longrightarrow> \<exists>x y. x \<in> set xs \<and> y \<in> set (remove1 x xs) \<and> f x = f y"
proof (induction xs)
  case Nil
  then show ?case by simp
next
  case (Cons a xs)
  show ?case
  proof (cases "f a \<in> f ` set xs")
    case True
    then obtain y where "y \<in> set xs" "f a = f y" by auto
    then have "a \<in> set (a # xs) \<and> y \<in> set (remove1 a (a # xs)) \<and> f a = f y" by simp
    then show ?thesis by blast
  next
    case False
    with Cons.prems have "\<not> distinct (map f xs)" by simp
    with Cons.IH obtain x y where x: "x \<in> set xs" and y: "y \<in> set (remove1 x xs)"
      and e: "f x = f y" by blast
    have "y \<in> set (remove1 x (a # xs))"
    proof (cases "x = a")
      case True
      with y show ?thesis using set_remove1_subset [of a xs] by auto
    next
      case False
      with y show ?thesis by simp
    qed
    with x e show ?thesis by (metis list.set_intros(2))
  qed
qed

lemma distinct_insert_at_conv:
  "distinct (take k ws @ [x] @ drop k ws) \<Longrightarrow> distinct ws \<and> x \<notin> set ws"
proof -
  assume d: "distinct (take k ws @ [x] @ drop k ws)"
  then have p: "distinct (take k ws) \<and> distinct (drop k ws)
      \<and> set (take k ws) \<inter> set (drop k ws) = {}"
    and n: "x \<notin> set (take k ws)" "x \<notin> set (drop k ws)"
    by auto
  from p have "distinct (take k ws @ drop k ws)" by (simp only: distinct_append)
  then have "distinct ws" by (simp only: append_take_drop_id)
  moreover have "set (take k ws @ drop k ws) = set (take k ws) \<union> set (drop k ws)"
    by (rule set_append)
  then have "set ws = set (take k ws) \<union> set (drop k ws)"
    by (simp only: append_take_drop_id)
  with n have "x \<notin> set ws" by blast
  ultimately show ?thesis by blast
qed

text \<open>
  Claim C2, as the code has it. For every current entry and pool, every rearrangement
  made by the shuffle and every random number from 0 up to 1, \<^verbatim>\<open>generateChoices\<close>
  returns four strings and a correct index below 4; the slot at that index holds the
  core of the correct reading, and the other three slots hold, in order, the cores of the
  readings of the first three shuffled wrong entries, or the empty string where the
  wrong-answer pool has run out. When the wrong-answer pool has at least three entries,
  and the cores of the readings of all its entries are pairwise distinct and all differ
  from the core of the correct reading, the four strings are pairwise distinct.
\<close>

theorem generateChoices_slots:
  assumes r0: "0 \<le> rnd" and r1: "rnd < 1"
    and perm: "\<forall>xs. mset (shuffle xs) = mset xs"
  shows "(case generateChoices shuffle rnd correctItem allItems of
            (cs, k) \<Rightarrow>
              length cs = 4 \<and> k < 4 \<and>
              cs ! k = extractReadingCore (reading correctItem) \<and>
              take k cs @ drop (Suc k) cs =
                map (\<lambda>j. if j < length (wrongPool correctItem allItems)
                          then extractReadingCore
                                 (reading (shuffle (wrongPool correctItem allItems) ! j))
                          else []) [0, 1, 2] \<and>
              (3 \<le> length (wrongPool correctItem allItems) \<and>
               distinct (map (\<lambda>it. extractReadingCore (reading it))
                          (wrongPool correctItem allItems)) \<and>
               extractReadingCore (reading correctItem)
                 \<notin> set (map (\<lambda>it. extractReadingCore (reading it))
                           (wrongPool correctItem allItems))
               \<longrightarrow> distinct cs))"
proof -
  let ?pool = "wrongPool correctItem allItems"
  let ?sh = "shuffle ?pool"
  let ?k = "nat \<lfloor>rnd * 4\<rfloor>"
  let ?c = "extractReadingCore (reading correctItem)"
  let ?ws = "map (\<lambda>j. if j < length ?pool then extractReadingCore (reading (?sh ! j)) else []) [0, 1, 2]"
  let ?cs = "take ?k ?ws @ [?c] @ drop ?k ?ws"
  have k: "?k < 4" using r0 r1 by (rule random_slot)
  have m: "mset ?sh = mset ?pool" using perm by blast
  have "generateChoices shuffle rnd correctItem allItems
        = (fill_choices (reading correctItem) (map reading (take 3 ?sh)) ?k 0 0 [], ?k)"
    by (simp only: generateChoices_def Let_def)
  then have g: "generateChoices shuffle rnd correctItem allItems = (?cs, ?k)"
    by (simp only: fill_choices_closed [OF k] wrong_slots [OF m])
  have lws: "length ?ws = 3" by simp
  have len: "length ?cs = 4" using k by (simp del: take_Cons_numeral drop_Cons_numeral map_eq_conv list.map)
  have kth: "?cs ! ?k = ?c" using k lws
    by (simp add: nth_append del: take_Cons_numeral drop_Cons_numeral list.map)
  have rest: "take ?k ?cs @ drop (Suc ?k) ?cs = ?ws"
    using k lws by (simp del: take_Cons_numeral drop_Cons_numeral list.map)
  have dist: "distinct ?cs"
    if "3 \<le> length ?pool"
      and "distinct (map (\<lambda>it. extractReadingCore (reading it)) ?pool)"
      and "?c \<notin> set (map (\<lambda>it. extractReadingCore (reading it)) ?pool)"
  proof -
    note w = wrong_slots_distinct [OF m that(1) that(2)]
    have "distinct ?ws" using w(1) w(2) by (simp only:)
    moreover have "?c \<notin> set ?ws" using w(1) w(3) that(3) by (simp only:) blast
    ultimately show ?thesis by (rule distinct_insert_at)
  qed
  show ?thesis
    unfolding g using len k kth rest dist by (simp only: prod.case) blast
qed

text \<open>
  The theorem at a pool of four entries with the readings U+3042, U+3044, U+3046 and
  U+3048, the third being the current one, an unchanged order and the random number
  one half: the correct slot is slot 2 and the four strings differ.
\<close>

theorem generateChoices_slots_witness:
  "(0::real) \<le> 1 / 2 \<and> (1 / 2 :: real) < 1 \<and>
   (\<forall>xs :: item list. mset ((\<lambda>ys. ys) xs) = mset xs) \<and>
   3 \<le> length (wrongPool (entry_reading [12358])
          [entry_reading [12354], entry_reading [12356], entry_reading [12358], entry_reading [12360]]) \<and>
   generateChoices (\<lambda>ys. ys) (1 / 2) (entry_reading [12358])
     [entry_reading [12354], entry_reading [12356], entry_reading [12358], entry_reading [12360]]
     = ([[12354], [12356], [12358], [12360]], 2) \<and>
   distinct (fst (generateChoices (\<lambda>ys. ys) (1 / 2) (entry_reading [12358])
     [entry_reading [12354], entry_reading [12356], entry_reading [12358], entry_reading [12360]]))"
proof -
  let ?all = "[entry_reading [12354], entry_reading [12356], entry_reading [12358], entry_reading [12360]]"
  let ?c = "entry_reading [12358]"
  have p: "wrongPool ?c ?all = [entry_reading [12354], entry_reading [12356], entry_reading [12360]]"
    by (simp add: wrongPool_def)
  have h0: "(0::real) \<le> 1 / 2" and h1: "(1 / 2 :: real) < 1" by simp_all
  have h2: "\<forall>xs :: item list. mset ((\<lambda>ys. ys) xs) = mset xs" by simp
  have g: "generateChoices (\<lambda>ys. ys) (1 / 2) ?c ?all = ([[12354], [12356], [12358], [12360]], 2)"
    by (simp add: generateChoices_def p fill_choices.simps wrong_or_empty_def)
  have d: "distinct (map (\<lambda>it. extractReadingCore (reading it)) (wrongPool ?c ?all))"
    and n: "extractReadingCore (reading ?c)
       \<notin> set (map (\<lambda>it. extractReadingCore (reading it)) (wrongPool ?c ?all))"
    and l: "3 \<le> length (wrongPool ?c ?all)"
    by (simp_all add: p)
  from generateChoices_slots [OF h0 h1 h2, of ?c ?all] d n l
  have "distinct (fst (generateChoices (\<lambda>ys. ys) (1 / 2) ?c ?all))"
    by (auto split: prod.splits)
  with h0 h1 h2 l g show ?thesis by blast
qed

text \<open>
  Claim C2 as stated fails for the distinctness of the strings. Here the wrong-answer
  pool has three distinct readings, two of them with the same stem before different
  quoted okurigana; their cores are equal, and slots 1 and 2 show the same string.
\<close>

theorem generateChoices_duplicate_counterexample:
  "3 \<le> length (remdups (map reading (wrongPool (entry_reading [12358])
          [entry_reading [12358], entry_reading [12354, 39, 12367, 39],
           entry_reading [12354, 39, 12369, 12427, 39], entry_reading [12356]]))) \<and>
   \<not> distinct (fst (generateChoices (\<lambda>ys. ys) 0 (entry_reading [12358])
          [entry_reading [12358], entry_reading [12354, 39, 12367, 39],
           entry_reading [12354, 39, 12369, 12427, 39], entry_reading [12356]]))"
  by (simp add: generateChoices_def wrongPool_def fill_choices.simps wrong_or_empty_def)



text \<open>
  The condition on the cores has to cover the whole wrong-answer pool, since the shuffle
  may bring any of its entries to the front: when the pool has at least three entries
  and two of them have the same core, or one has the core of the correct reading, some
  rearrangement gives four strings that are not pairwise distinct.
\<close>

lemma generateChoices_duplicate_shuffle:
  assumes r0: "0 \<le> rnd" and r1: "rnd < 1"
    and l: "3 \<le> length (wrongPool correctItem allItems)"
    and bad: "\<not> distinct (map (\<lambda>it. extractReadingCore (reading it))
                            (wrongPool correctItem allItems))
              \<or> extractReadingCore (reading correctItem)
                  \<in> set (map (\<lambda>it. extractReadingCore (reading it))
                            (wrongPool correctItem allItems))"
  shows "\<exists>shuffle. (\<forall>xs. mset (shuffle xs) = mset xs) \<and>
           \<not> distinct (fst (generateChoices shuffle rnd correctItem allItems))"
proof -
  let ?pool = "wrongPool correctItem allItems"
  let ?f = "\<lambda>it. extractReadingCore (reading it)"
  let ?c = "extractReadingCore (reading correctItem)"
  have "\<exists>sh. mset sh = mset ?pool \<and> (?f (sh ! 0) = ?c \<or> ?f (sh ! 0) = ?f (sh ! 1))"
  proof (cases "?c \<in> set (map ?f ?pool)")
    case True
    then obtain x where x: "x \<in> set ?pool" and e: "?f x = ?c" by auto
    have "mset (x # remove1 x ?pool) = mset ?pool" using x by simp
    moreover have "?f ((x # remove1 x ?pool) ! 0) = ?c" using e by simp
    ultimately show ?thesis by blast
  next
    case False
    with bad have "\<not> distinct (map ?f ?pool)" by blast
    then obtain x y where x: "x \<in> set ?pool" and y: "y \<in> set (remove1 x ?pool)"
      and e: "?f x = ?f y" using equal_image_pair [of ?f ?pool] by blast
    have "y \<in># mset (remove1 x ?pool)" using y by (simp only: set_mset_mset)
    then have "add_mset y (mset (remove1 x ?pool) - {#y#}) = mset (remove1 x ?pool)"
      by (rule insert_DiffM)
    then have "mset (y # remove1 y (remove1 x ?pool)) = mset (remove1 x ?pool)"
      by (simp only: mset.simps mset_remove1)
    moreover have "x \<in># mset ?pool" using x by (simp only: set_mset_mset)
    then have "add_mset x (mset ?pool - {#x#}) = mset ?pool" by (rule insert_DiffM)
    then have "add_mset x (mset (remove1 x ?pool)) = mset ?pool"
      by (simp only: mset_remove1)
    ultimately have "mset (x # y # remove1 y (remove1 x ?pool)) = mset ?pool"
      by (simp only: mset.simps)
    moreover have "?f ((x # y # remove1 y (remove1 x ?pool)) ! 0)
                   = ?f ((x # y # remove1 y (remove1 x ?pool)) ! 1)" using e by simp
    ultimately show ?thesis by blast
  qed
  then obtain sh where m: "mset sh = mset ?pool"
    and s: "?f (sh ! 0) = ?c \<or> ?f (sh ! 0) = ?f (sh ! 1)" by blast
  let ?shuffle = "\<lambda>xs. if xs = ?pool then sh else xs"
  let ?k = "nat \<lfloor>rnd * 4\<rfloor>"
  let ?ws = "map (\<lambda>j. if j < length ?pool then ?f (?shuffle ?pool ! j) else []) [0, 1, 2]"
  have perm: "\<forall>xs. mset (?shuffle xs) = mset xs" using m by simp
  then have mp: "mset (?shuffle ?pool) = mset ?pool" by blast
  have g: "generateChoices ?shuffle rnd correctItem allItems
           = (take ?k ?ws @ [?c] @ drop ?k ?ws, ?k)"
    using r0 r1 mp by (rule generateChoices_closed)
  have "0 < length ?pool" "1 < length ?pool" "2 < length ?pool" using l by auto
  then have ws: "?ws = [?f (sh ! 0), ?f (sh ! 1), ?f (sh ! 2)]" by simp
  have bw: "\<not> (distinct ?ws \<and> ?c \<notin> set ?ws)"
  proof
    assume a: "distinct ?ws \<and> ?c \<notin> set ?ws"
    then have "distinct [?f (sh ! 0), ?f (sh ! 1), ?f (sh ! 2)]
        \<and> ?c \<notin> set [?f (sh ! 0), ?f (sh ! 1), ?f (sh ! 2)]"
      unfolding ws .
    then have "?f (sh ! 0) \<noteq> ?f (sh ! 1)" and "?f (sh ! 0) \<noteq> ?c" by auto
    with s show False by blast
  qed
  have nd: "\<not> distinct (take ?k ?ws @ [?c] @ drop ?k ?ws)"
  proof
    assume "distinct (take ?k ?ws @ [?c] @ drop ?k ?ws)"
    then have "distinct ?ws \<and> ?c \<notin> set ?ws" by (rule distinct_insert_at_conv)
    with bw show False ..
  qed
  have e: "fst (generateChoices ?shuffle rnd correctItem allItems)
        = take ?k ?ws @ [?c] @ drop ?k ?ws"
    by (subst g) (rule fst_conv)
  have "\<not> distinct (fst (generateChoices ?shuffle rnd correctItem allItems))"
    unfolding e by (rule nd)
  with perm have "(\<forall>xs. mset (?shuffle xs) = mset xs) \<and>
      \<not> distinct (fst (generateChoices ?shuffle rnd correctItem allItems))" ..
  then show ?thesis by (rule exI [where x = ?shuffle])
qed

section \<open>Properties of the genre filter\<close>

lemma starts_with_iff: "starts_with s t \<longleftrightarrow> (\<exists>r. s = t @ r)"
  by (induction s t rule: starts_with.induct) auto

lemma js_includes_iff: "js_includes s t \<longleftrightarrow> (\<exists>p r. s = p @ t @ r)"
proof (induction s)
  case Nil
  show ?case by simp
next
  case (Cons x xs)
  show ?case
  proof
    assume "js_includes (x # xs) t"
    then consider "starts_with (x # xs) t" | "js_includes xs t" by auto
    then show "\<exists>p r. x # xs = p @ t @ r"
    proof cases
      case 1
      then obtain r where "x # xs = t @ r" by (auto simp: starts_with_iff)
      then have "x # xs = [] @ t @ r" by simp
      then show ?thesis by blast
    next
      case 2
      with Cons.IH obtain p r where "xs = p @ t @ r" by blast
      then have "x # xs = (x # p) @ t @ r" by simp
      then show ?thesis by blast
    qed
  next
    assume "\<exists>p r. x # xs = p @ t @ r"
    then obtain p r where e: "x # xs = p @ t @ r" by blast
    show "js_includes (x # xs) t"
    proof (cases p)
      case Nil
      with e have "starts_with (x # xs) t" by (auto simp: starts_with_iff)
      then show ?thesis by simp
    next
      case (Cons y p')
      with e have "xs = p' @ t @ r" by simp
      with Cons.IH have "js_includes xs t" by blast
      then show ?thesis by simp
    qed
  qed
qed

text \<open>
  Claim C8. The genre filter returns, for the tag \<^verbatim>\<open>all\<close>, every entry; for the
  "no genre" tag, exactly the entries (in catalog order) whose tag text holds none of the
  sixteen defined genre labels as a substring; for any other tag, exactly the entries
  whose tag text holds that tag as a substring, code unit for code unit. The tag text of
  an entry is \<^verbatim>\<open>additionalInfo\<close>, or the empty string when that is undefined.
\<close>

theorem filterByGenre_meaning:
  "filterByGenre tag xs =
     (if tag = genre_all then xs
      else if tag = genre_none then
        filter (\<lambda>it. \<forall>g\<in>set definedGenres.
                        \<not> (\<exists>p r. or_empty (additionalInfo it) = p @ g @ r)) xs
      else filter (\<lambda>it. \<exists>p r. or_empty (additionalInfo it) = p @ tag @ r) xs)"
  by (simp add: filterByGenre_def Let_def list_ex_iff js_includes_iff)

text \<open>
  The theorem at two small catalogs: the "no genre" tag keeps the entry without tag text
  and drops the one tagged U+52D5 U+7269 (animals); the animals tag keeps the entry
  tagged animals and drops the one tagged with the plants label.
\<close>

theorem filterByGenre_meaning_witness:
  "filterByGenre genre_none
     [(entry_reading [12354])\<lparr>additionalInfo := Some [21205, 29289]\<rparr>, entry_reading [12356]]
     = [entry_reading [12356]] \<and>
   filter (\<lambda>it. \<forall>g\<in>set definedGenres. \<not> (\<exists>p r. or_empty (additionalInfo it) = p @ g @ r))
     [(entry_reading [12354])\<lparr>additionalInfo := Some [21205, 29289]\<rparr>, entry_reading [12356]]
     = [entry_reading [12356]] \<and>
   filter (\<lambda>it. \<exists>p r. or_empty (additionalInfo it) = p @ [21205, 29289] @ r)
     [(entry_reading [12354])\<lparr>additionalInfo := Some [21205, 29289]\<rparr>,
      (entry_reading [12356])\<lparr>additionalInfo := Some [26893, 29289, 12539, 34299, 39006]\<rparr>]
     = [(entry_reading [12354])\<lparr>additionalInfo := Some [21205, 29289]\<rparr>]"
proof -
  let ?a = "(entry_reading [12354])\<lparr>additionalInfo := Some [21205, 29289]\<rparr>"
  let ?b = "entry_reading [12356]"
  let ?c = "(entry_reading [12356])\<lparr>additionalInfo := Some [26893, 29289, 12539, 34299, 39006]\<rparr>"
  have e1: "filterByGenre genre_none [?a, ?b] = [?b]"
    by (simp add: filterByGenre_def definedGenres_def or_empty_def)
  have e2: "filterByGenre [21205, 29289] [?a, ?c] = [?a]"
    by (simp add: filterByGenre_def or_empty_def)
  from filterByGenre_meaning [of genre_none "[?a, ?b]"] e1
  have f1: "filter (\<lambda>it. \<forall>g\<in>set definedGenres. \<not> (\<exists>p r. or_empty (additionalInfo it) = p @ g @ r))
     [?a, ?b] = [?b]" by simp
  from filterByGenre_meaning [of "[21205, 29289]" "[?a, ?c]"] e2
  have f2: "filter (\<lambda>it. \<exists>p r. or_empty (additionalInfo it) = p @ [21205, 29289] @ r) [?a, ?c] = [?a]"
    by simp
  from e1 f1 f2 show ?thesis by blast
qed

section \<open>Properties of the quiz\<close>

text \<open>
  Claim C9. The candidate pool of \<^verbatim>\<open>startQuiz\<close> is the loaded catalog. With no
  catalog or an empty one, \<^verbatim>\<open>startQuiz\<close> leaves the whole state as it is, so no
  session is made and the application stays in the list. With a non-empty catalog, and a
  shuffle that rearranges, the working set is a rearrangement of the catalog, the
  position is 0, the score is 0 to 0, and the application is in the quiz.
\<close>

theorem startQuiz_session:
  assumes "\<forall>xs. mset (shuffle xs) = mset xs"
  shows "(items st = None \<or> items st = Some [] \<longrightarrow> startQuiz shuffle st = st) \<and>
         (\<forall>xs. items st = Some xs \<and> xs \<noteq> [] \<longrightarrow>
            mset (quizItems (startQuiz shuffle st)) = mset xs \<and>
            currentIndex (startQuiz shuffle st) = 0 \<and>
            score (startQuiz shuffle st) = \<lparr>correct = 0, incorrect = 0\<rparr> \<and>
            mode (startQuiz shuffle st) = QuizMode)"
  using assms by (auto simp: startQuiz_def)

text \<open>
  The theorem with the reversing shuffle, at the initial state (no catalog) and at a
  state with a catalog of two entries.
\<close>

theorem startQuiz_session_witness:
  "(\<forall>xs :: item list. mset (rev xs) = mset xs) \<and>
   items initial_state = None \<and> startQuiz rev initial_state = initial_state \<and>
   items (initial_state\<lparr>items := Some [entry_reading [12354], entry_reading [12356]]\<rparr>)
     = Some [entry_reading [12354], entry_reading [12356]] \<and>
   mset (quizItems (startQuiz rev
           (initial_state\<lparr>items := Some [entry_reading [12354], entry_reading [12356]]\<rparr>)))
     = mset [entry_reading [12354], entry_reading [12356]] \<and>
   currentIndex (startQuiz rev
           (initial_state\<lparr>items := Some [entry_reading [12354], entry_reading [12356]]\<rparr>)) = 0 \<and>
   score (startQuiz rev
           (initial_state\<lparr>items := Some [entry_reading [12354], entry_reading [12356]]\<rparr>))
     = \<lparr>correct = 0, incorrect = 0\<rparr> \<and>
   mode (startQuiz rev
           (initial_state\<lparr>items := Some [entry_reading [12354], entry_reading [12356]]\<rparr>))
     = QuizMode"
proof -
  let ?xs = "[entry_reading [12354], entry_reading [12356]]"
  let ?st = "initial_state\<lparr>items := Some ?xs\<rparr>"
  have h: "\<forall>xs :: item list. mset (rev xs) = mset xs" by simp
  have n: "items initial_state = None" by (simp add: initial_state_def)
  have i: "items ?st = Some ?xs" and ne: "?xs \<noteq> []" by simp_all
  from startQuiz_session [OF h, of initial_state] n
  have a: "startQuiz rev initial_state = initial_state" by blast
  from startQuiz_session [OF h, of ?st] i ne
  have b: "mset (quizItems (startQuiz rev ?st)) = mset ?xs \<and>
        currentIndex (startQuiz rev ?st) = 0 \<and>
        score (startQuiz rev ?st) = \<lparr>correct = 0, incorrect = 0\<rparr> \<and>
        mode (startQuiz rev ?st) = QuizMode" by blast
  from h n a i b show ?thesis by blast
qed

text \<open>
  Claim C10. Whatever genre, search text and search mode are selected when the quiz is
  started, the working set is the shuffle of the whole loaded catalog: the filter and the
  search of the list view do not reach the quiz.
\<close>

theorem startQuiz_ignores_filter:
  assumes "items st = Some xs" and "xs \<noteq> []"
  shows "quizItems (startQuiz shuffle (st\<lparr>selectedGenre := g, searchQuery := q, searchMode := m\<rparr>))
         = shuffle xs"
  using assms by (simp add: startQuiz_def)

text \<open>
  The theorem at a catalog of two entries with the animals genre selected: the list view
  shows one entry, the quiz holds both.
\<close>

theorem startQuiz_ignores_filter_witness:
  "items (initial_state\<lparr>items := Some
       [(entry_reading [12354])\<lparr>additionalInfo := Some [21205, 29289]\<rparr>, entry_reading [12356]]\<rparr>)
     = Some [(entry_reading [12354])\<lparr>additionalInfo := Some [21205, 29289]\<rparr>, entry_reading [12356]] \<and>
   [(entry_reading [12354])\<lparr>additionalInfo := Some [21205, 29289]\<rparr>, entry_reading [12356]] \<noteq> [] \<and>
   filteredItems (\<lambda>s. s) (initial_state\<lparr>items := Some
       [(entry_reading [12354])\<lparr>additionalInfo := Some [21205, 29289]\<rparr>, entry_reading [12356]],
       selectedGenre := [21205, 29289], searchQuery := [], searchMode := ReadingSearch\<rparr>)
     = [(entry_reading [12354])\<lparr>additionalInfo := Some [21205, 29289]\<rparr>] \<and>
   quizItems (startQuiz (\<lambda>ys. ys) (initial_state\<lparr>items := Some
       [(entry_reading [12354])\<lparr>additionalInfo := Some [21205, 29289]\<rparr>, entry_reading [12356]],
       selectedGenre := [21205, 29289], searchQuery := [], searchMode := ReadingSearch\<rparr>))
     = [(entry_reading [12354])\<lparr>additionalInfo := Some [21205, 29289]\<rparr>, entry_reading [12356]]"
proof -
  let ?xs = "[(entry_reading [12354])\<lparr>additionalInfo := Some [21205, 29289]\<rparr>, entry_reading [12356]]"
  let ?st = "initial_state\<lparr>items := Some ?xs\<rparr>"
  have i: "items ?st = Some ?xs" and ne: "?xs \<noteq> []" by simp_all
  have f: "filteredItems (\<lambda>s. s) (?st\<lparr>selectedGenre := [21205, 29289], searchQuery := [],
              searchMode := ReadingSearch\<rparr>) = [(entry_reading [12354])\<lparr>additionalInfo := Some [21205, 29289]\<rparr>]"
    by (simp add: filteredItems_def filterByGenre_def searchItems_def trim_def or_empty_def)
  from startQuiz_ignores_filter [OF i ne, where shuffle = "\<lambda>ys. ys" and g = "[21205, 29289]" and q = "[]"
      and m = ReadingSearch]
  have q: "quizItems (startQuiz (\<lambda>ys. ys) (?st\<lparr>selectedGenre := [21205, 29289], searchQuery := [],
              searchMode := ReadingSearch\<rparr>)) = ?xs" by simp
  from i ne f q show ?thesis by blast
qed


lemma selectFormat_keeps_score: "score (selectFormat f st) = score st"
  by (simp add: selectFormat_def)

text \<open>
  Claim C1 says that the two counters together count the answered questions and never
  exceed the position plus one, so that no question is counted twice. The code breaks
  this: the format buttons stay on the page after an answer, and their handler clears
  \<^verbatim>\<open>showResult\<close>, which brings the answer controls back for the same question. In
  a quiz over one entry, giving up, clicking the input format button and giving up again
  leaves the position at 0 and the score at 0 correct, 2 incorrect.
\<close>

theorem score_counted_twice_after_format_click:
  "correct (score (run [(\<lambda>ys. ys, 0, ClickStartQuiz), (\<lambda>ys. ys, 0, ClickGiveUp),
              (\<lambda>ys. ys, 0, ClickFormat InputFormat), (\<lambda>ys. ys, 0, ClickGiveUp)]
             (initial_state\<lparr>items := Some [entry_reading [12354]]\<rparr>))) = 0 \<and>
   incorrect (score (run [(\<lambda>ys. ys, 0, ClickStartQuiz), (\<lambda>ys. ys, 0, ClickGiveUp),
              (\<lambda>ys. ys, 0, ClickFormat InputFormat), (\<lambda>ys. ys, 0, ClickGiveUp)]
             (initial_state\<lparr>items := Some [entry_reading [12354]]\<rparr>))) = 2 \<and>
   currentIndex (run [(\<lambda>ys. ys, 0, ClickStartQuiz), (\<lambda>ys. ys, 0, ClickGiveUp),
              (\<lambda>ys. ys, 0, ClickFormat InputFormat), (\<lambda>ys. ys, 0, ClickGiveUp)]
             (initial_state\<lparr>items := Some [entry_reading [12354]]\<rparr>)) = 0"
  by (simp add: step_def initial_state_def list_view_def quiz_view_def startQuiz_def giveUp_def
      selectFormat_def add_incorrect_def choicesEffect_def)


section \<open>Properties of the record construction\<close>

lemma parse_loop_nonempty: "parse_loop l res cur q \<noteq> []"
  by (induction l res cur q rule: parse_loop.induct) auto

lemma parseCSVLine_nonempty: "parseCSVLine line \<noteq> []"
  by (simp add: parseCSVLine_def parse_loop_nonempty)

lemma fold_set_prop_other:
  "k \<notin> key ` set js \<Longrightarrow>
   fold (\<lambda>i obj. set_prop obj (key i) (v i)) js m k = m k"
  by (induction js arbitrary: m) (auto simp: set_prop_def)

lemma fold_set_prop_own:
  "k \<noteq> str_proto \<Longrightarrow> m k \<noteq> None \<or> k \<in> key ` set js \<Longrightarrow>
   fold (\<lambda>i obj. set_prop obj (key i) (v i)) js m k \<noteq> None"
proof (induction js arbitrary: m)
  case Nil
  then show ?case by simp
next
  case (Cons j js)
  have "set_prop m (key j) (v j) k \<noteq> None \<or> k \<in> key ` set js"
    using Cons.prems by (auto simp: set_prop_def)
  with Cons.prems(1) have "fold (\<lambda>i obj. set_prop obj (key i) (v i)) js (set_prop m (key j) (v j)) k \<noteq> None"
    by (rule Cons.IH)
  then show ?case by simp
qed

lemma row_obj_missing:
  assumes "k \<notin> key_of header ` {0..<length cols}"
  shows "row_obj header cols k = None"
  using fold_set_prop_other [of k "key_of header" "[0..<length cols]" "\<lambda>i. trim (cols ! i)" Map.empty] assms
  by (simp add: row_obj_def)

lemma row_obj_own:
  assumes "k \<noteq> str_proto" and "i < length cols" and "k = key_of header i"
  shows "row_obj header cols k \<noteq> None"
proof -
  have "k \<in> key_of header ` set [0..<length cols]" using assms(2,3) by simp
  then show ?thesis
    unfolding row_obj_def using assms(1) by (intro fold_set_prop_own) auto
qed

lemma key_of_cases:
  assumes "i < n" and "n \<le> length header"
  shows "key_of header i \<in> set (take n header) \<or> (\<exists>d. key_of header i = str_col @ d)"
proof (cases "header ! i \<noteq> []")
  case True
  with assms have "key_of header i = take n header ! i" by (simp add: key_of_def)
  moreover have "i < length (take n header)" using assms by simp
  ultimately show ?thesis by (metis nth_mem)
next
  case False
  then show ?thesis by (auto simp: key_of_def)
qed

lemma named_column_missing:
  assumes "length cols < length header"
    and "k \<notin> set (take (length cols) header)"
    and "\<forall>d. k \<noteq> str_col @ d"
  shows "row_obj header cols k = None"
proof (rule row_obj_missing)
  show "k \<notin> key_of header ` {0..<length cols}"
  proof
    assume "k \<in> key_of header ` {0..<length cols}"
    then obtain i where i: "i < length cols" and k: "k = key_of header i" by auto
    from i assms(1) have "key_of header i \<in> set (take (length cols) header)
        \<or> (\<exists>d. key_of header i = str_col @ d)"
      by (intro key_of_cases) auto
    with k assms(2,3) show False by auto
  qed
qed

lemma fixed_names_not_col:
  "\<forall>d. str_reading \<noteq> str_col @ d" "\<forall>d. str_meaning \<noteq> str_col @ d"
  "\<forall>d. str_additional_info \<noteq> str_col @ d" "\<forall>d. str_components \<noteq> str_col @ d"
  "\<forall>d. str_path \<noteq> str_col @ d" "\<forall>d. str_filename \<noteq> str_col @ d"
  by simp_all

lemma fixed_names_not_inherited:
  "str_path \<notin> set object_prototype_names" "str_filename \<notin> set object_prototype_names"
  "[] \<notin> set object_prototype_names"
  by (simp_all add: object_prototype_names_def)

lemma filename_value:
  assumes short: "length cols < length header" and ne: "cols \<noteq> []"
    and np: "filenameField header \<noteq> str_proto"
  shows "get_prop (row_obj header cols) (filenameField header) \<noteq> ObjectValue"
proof (cases "row_obj header cols (filenameField header)")
  case (Some v)
  then show ?thesis by (simp add: get_prop_def)
next
  case None
  have "filenameField header \<notin> set object_prototype_names"
  proof (cases "str_path \<in> set header \<or> str_filename \<in> set header")
    case True
    then have "filenameField header = str_path \<or> filenameField header = str_filename"
      by (auto simp: filenameField_def)
    then show ?thesis using fixed_names_not_inherited by auto
  next
    case False
    from short obtain h hs where h: "header = h # hs" by (cases header) auto
    with False have f: "filenameField header = h" by (simp add: filenameField_def)
    show ?thesis
    proof (cases "h = []")
      case True
      with f show ?thesis using fixed_names_not_inherited by simp
    next
      case False
      with h have "key_of header 0 = h" by (simp add: key_of_def)
      with f have "filenameField header = key_of header 0" by simp
      moreover have "0 < length cols" using ne by simp
      ultimately have "row_obj header cols (filenameField header) \<noteq> None"
        using np by (intro row_obj_own [where i = 0]) auto
      with None show ?thesis by simp
    qed
  qed
  with None show ?thesis by (simp add: get_prop_def)
qed

lemma filename_missing:
  assumes short: "length cols < length header" and ne: "cols \<noteq> []"
    and miss: "filenameField header \<notin> set (take (length cols) header)"
  shows "get_prop (row_obj header cols) (filenameField header) = Undefined"
proof -
  from short obtain h hs where h: "header = h # hs" by (cases header) auto
  from ne obtain c cs where c: "cols = c # cs" by (cases cols) auto
  have "h \<in> set (take (length cols) header)" using h c by simp
  with miss have "filenameField header \<noteq> h" by auto
  with h have pf: "filenameField header = str_path \<or> filenameField header = str_filename"
    by (auto simp: filenameField_def split: if_splits)
  then have "\<forall>d. filenameField header \<noteq> str_col @ d" by auto
  with short miss have "row_obj header cols (filenameField header) = None"
    by (intro named_column_missing) auto
  moreover have "filenameField header \<notin> set object_prototype_names"
    using pf fixed_names_not_inherited by auto
  ultimately show ?thesis by (simp add: get_prop_def)
qed

text \<open>
  Claim C6, as the code has it. For every data row with fewer fields than the header has
  columns, and a header whose identifying column is not named \<^verbatim>\<open>__proto__\<close>, the
  construction of the entry throws nothing; the reading, the tag text and the components
  of the entry are strings, each the empty string when its column is missing from the
  row; the meaning is undefined, not the empty string, when its column is missing; and
  when the identifying column is missing, the file name is undefined and the image
  location ends in \<^verbatim>\<open>undefined\<close>. A column is missing when its name is not among the
  header names of the fields that the row has.
\<close>

theorem short_row_entry:
  assumes short: "length (parseCSVLine line) < length header"
    and np: "filenameField header \<noteq> str_proto"
  shows "\<exists>it. mapItem selectedLevel header (row_obj header (parseCSVLine line)) = Inr it \<and>
           additionalInfo it \<noteq> None \<and> components it \<noteq> None \<and>
           (str_reading \<notin> set (take (length (parseCSVLine line)) header) \<longrightarrow> reading it = []) \<and>
           (str_additional_info \<notin> set (take (length (parseCSVLine line)) header)
              \<longrightarrow> additionalInfo it = Some []) \<and>
           (str_components \<notin> set (take (length (parseCSVLine line)) header)
              \<longrightarrow> components it = Some []) \<and>
           (str_meaning \<notin> set (take (length (parseCSVLine line)) header)
              \<longrightarrow> meaning it = None) \<and>
           (filenameField header \<notin> set (take (length (parseCSVLine line)) header)
              \<longrightarrow> filename it = None \<and>
                  imageUrl it = str_kanji_level @ show_nat selectedLevel @ [slash] @ str_undefined)"
proof -
  let ?cols = "parseCSVLine line"
  let ?d = "row_obj header ?cols"
  let ?n = "length ?cols"
  have ne: "?cols \<noteq> []" by (rule parseCSVLine_nonempty)
  have r: "str_reading \<notin> set (take ?n header) \<Longrightarrow> ?d str_reading = None"
    using short fixed_names_not_col(1) by (intro named_column_missing) auto
  have m: "str_meaning \<notin> set (take ?n header) \<Longrightarrow> ?d str_meaning = None"
    using short fixed_names_not_col(2) by (intro named_column_missing) auto
  have a: "str_additional_info \<notin> set (take ?n header) \<Longrightarrow> ?d str_additional_info = None"
    using short fixed_names_not_col(3) by (intro named_column_missing) auto
  have c: "str_components \<notin> set (take ?n header) \<Longrightarrow> ?d str_components = None"
    using short fixed_names_not_col(4) by (intro named_column_missing) auto
  have v: "get_prop ?d (filenameField header) \<noteq> ObjectValue"
    using short ne np by (rule filename_value)
  have u: "filenameField header \<notin> set (take ?n header)
           \<Longrightarrow> get_prop ?d (filenameField header) = Undefined"
    using short ne by (rule filename_missing)
  show ?thesis
  proof (cases "get_prop ?d (filenameField header)")
    case Undefined
    then show ?thesis using r m a c by (simp add: mapItem_def or_empty_def)
  next
    case (Str fname)
    then show ?thesis using r m a c u by (auto simp: mapItem_def or_empty_def)
  next
    case ObjectValue
    with v show ?thesis by simp
  qed
qed


text \<open>
  The theorem at the five-column header of the data files with a row of one field, and
  at a header whose second column is \<^verbatim>\<open>path\<close> with a row of one field.
\<close>

theorem short_row_entry_witness:
  "length (parseCSVLine [105, 109, 103, 49, 46, 112, 110, 103])
     < length [str_path, str_reading, str_meaning, str_additional_info, str_components] \<and>
   filenameField [str_path, str_reading, str_meaning, str_additional_info, str_components]
     \<noteq> str_proto \<and>
   (\<exists>it. mapItem 7 [str_path, str_reading, str_meaning, str_additional_info, str_components]
           (row_obj [str_path, str_reading, str_meaning, str_additional_info, str_components]
              (parseCSVLine [105, 109, 103, 49, 46, 112, 110, 103])) = Inr it \<and>
         reading it = [] \<and> additionalInfo it = Some [] \<and> components it = Some [] \<and>
         meaning it = None) \<and>
   length (parseCSVLine [120]) < length [str_reading, str_path] \<and>
   filenameField [str_reading, str_path] \<noteq> str_proto \<and>
   (\<exists>it. mapItem 7 [str_reading, str_path]
           (row_obj [str_reading, str_path] (parseCSVLine [120])) = Inr it \<and>
         filename it = None \<and>
         imageUrl it = [47, 107, 97, 110, 106, 105, 47, 108, 101, 118, 101, 108, 45, 55, 47,
                        117, 110, 100, 101, 102, 105, 110, 101, 100])"
proof -
  let ?H = "[str_path, str_reading, str_meaning, str_additional_info, str_components]"
  let ?L = "[105, 109, 103, 49, 46, 112, 110, 103]"
  have p: "parseCSVLine ?L = [?L]" by (simp add: parseCSVLine_def)
  have s1: "length (parseCSVLine ?L) < length ?H" by (simp add: p)
  have f1: "filenameField ?H \<noteq> str_proto" by (simp add: filenameField_def)
  have m1: "str_reading \<notin> set (take (length (parseCSVLine ?L)) ?H)"
    "str_additional_info \<notin> set (take (length (parseCSVLine ?L)) ?H)"
    "str_components \<notin> set (take (length (parseCSVLine ?L)) ?H)"
    "str_meaning \<notin> set (take (length (parseCSVLine ?L)) ?H)"
    by (simp_all add: p)
  have a: "\<exists>it. mapItem 7 ?H (row_obj ?H (parseCSVLine ?L)) = Inr it \<and>
         reading it = [] \<and> additionalInfo it = Some [] \<and> components it = Some [] \<and>
         meaning it = None"
    using short_row_entry [OF s1 f1, of 7] m1 by blast
  let ?H2 = "[str_reading, str_path]"
  have p2: "parseCSVLine [120] = [[120]]" by (simp add: parseCSVLine_def)
  have s2: "length (parseCSVLine [120]) < length ?H2" by (simp add: p2)
  have f2: "filenameField ?H2 \<noteq> str_proto" by (simp add: filenameField_def)
  have m2: "filenameField ?H2 \<notin> set (take (length (parseCSVLine [120])) ?H2)"
    by (simp add: p2 filenameField_def)
  have "\<exists>it. mapItem 7 ?H2 (row_obj ?H2 (parseCSVLine [120])) = Inr it \<and>
         filename it = None \<and>
         imageUrl it = str_kanji_level @ show_nat 7 @ [slash] @ str_undefined"
    using short_row_entry [OF s2 f2, of 7] m2 by blast
  then have b: "\<exists>it. mapItem 7 ?H2 (row_obj ?H2 (parseCSVLine [120])) = Inr it \<and>
         filename it = None \<and>
         imageUrl it = [47, 107, 97, 110, 106, 105, 47, 108, 101, 118, 101, 108, 45, 55, 47,
                        117, 110, 100, 101, 102, 105, 110, 101, 100]"
    by (simp add: show_nat.simps)
  from s1 f1 a s2 f2 b show ?thesis by blast
qed


text \<open>
  Claim C6 as stated fails at the five-column header with a row of two fields: the
  meaning of the entry is undefined, not the empty string.
\<close>

theorem short_row_meaning_counterexample:
  "length (parseCSVLine [105, 109, 103, 49, 46, 112, 110, 103, 44, 12402, 12363, 12427])
     < length [str_path, str_reading, str_meaning, str_additional_info, str_components] \<and>
   mapItem 7 [str_path, str_reading, str_meaning, str_additional_info, str_components]
     (row_obj [str_path, str_reading, str_meaning, str_additional_info, str_components]
        (parseCSVLine [105, 109, 103, 49, 46, 112, 110, 103, 44, 12402, 12363, 12427]))
   = Inr \<lparr>filename = Some [105, 109, 103, 49, 46, 112, 110, 103],
          reading = [12402, 12363, 12427],
          meaning = None,
          imageUrl = [47, 107, 97, 110, 106, 105, 47, 108, 101, 118, 101, 108, 45, 55, 47,
                      105, 109, 103, 49, 46, 112, 110, 103],
          additionalInfo = Some [], components = Some []\<rparr>"
  by (simp add: parseCSVLine_def row_obj_def key_of_def set_prop_def mapItem_def get_prop_def
      filenameField_def or_empty_def trim_def is_ws_def show_nat.simps)

text \<open>
  With the identifying column named \<^verbatim>\<open>__proto__\<close>, the read of that property gives
  the prototype object, and the call of its missing method \<^verbatim>\<open>startsWith\<close> throws.
\<close>

lemma proto_header_throws:
  "mapItem 7 [str_proto, str_reading]
     (row_obj [str_proto, str_reading] (parseCSVLine [120, 44, 121])) = Inl TypeError"
  by (simp add: parseCSVLine_def row_obj_def key_of_def set_prop_def mapItem_def get_prop_def
      filenameField_def object_prototype_names_def trim_def is_ws_def)


end
